theory Spec2Isabelle
  imports Main "HOL-Library.Word" "HOL-Library.Extended_Nat" "HOL-Library.Sublist"
begin

section \<open>Strings of the host language\<close>

text \<open>
  A string of the source is a sequence of UTF-16 code units; every index, every
  \<open>length\<close> and every regular expression of the source (none carries the \<open>u\<close> flag)
  works on code units. A pattern character is one code unit.
\<close>

type_synonym cu = "16 word"
type_synonym str = "cu list"

text \<open>ASCII literals: a character below 128 is the code unit of the same number.\<close>

definition asc :: "string \<Rightarrow> str" where
  "asc s = map (\<lambda>c. of_nat (of_char c)) s"

definition COLON :: cu where "COLON = 58"
definition LBRACK :: cu where "LBRACK = 91"
definition RBRACK :: cu where "RBRACK = 93"
definition LBRACE :: cu where "LBRACE = 123"
definition RBRACE :: cu where "RBRACE = 125"
definition BAR :: cu where "BAR = 124"
definition PLUS :: cu where "PLUS = 43"
definition SPACE :: cu where "SPACE = 32"
definition LETTER_A :: cu where "LETTER_A = 65"
definition DIGIT_0 :: cu where "DIGIT_0 = 48"

text \<open>\<open>LETTER_RE\<close> is the class of A to Z, a to z and U+0400 to U+04FF; \<open>DIGIT_RE\<close> is the
  class of the decimal digits. Both are tested on one code unit.\<close>

definition LETTER_RE :: "cu \<Rightarrow> bool" where
  "LETTER_RE c \<longleftrightarrow> (65 \<le> c \<and> c \<le> 90) \<or> (97 \<le> c \<and> c \<le> 122) \<or> (1024 \<le> c \<and> c \<le> 1279)"

definition DIGIT_RE :: "cu \<Rightarrow> bool" where
  "DIGIT_RE c \<longleftrightarrow> 48 \<le> c \<and> c \<le> 57"

text \<open>
  The class \<open>\s\<close> of a regular expression, which is also what \<open>trimEnd\<close> removes: the
  white space and line terminator code points of the language (TAB, LF, VT, FF, CR, the
  space, NBSP, U+1680, U+2000 to U+200A, U+2028, U+2029, U+202F, U+205F, U+3000, U+FEFF).
\<close>

definition is_space :: "cu \<Rightarrow> bool" where
  "is_space c \<longleftrightarrow> (9 \<le> c \<and> c \<le> 13) \<or> c = 32 \<or> c = 160 \<or> c = 5760
     \<or> (8192 \<le> c \<and> c \<le> 8202) \<or> c = 8232 \<or> c = 8233 \<or> c = 8239 \<or> c = 8287
     \<or> c = 12288 \<or> c = 65279"

text \<open>\<open>s[i]\<close>, which is \<open>undefined\<close> out of range.\<close>

definition char_at :: "str \<Rightarrow> nat \<Rightarrow> cu option" where
  "char_at s i = (if i < length s then Some (s ! i) else None)"

text \<open>\<open>s.indexOf(c, from)\<close> for a single character \<open>c\<close>; \<open>None\<close> is the source's \<open>-1\<close>.\<close>

definition indexOf :: "str \<Rightarrow> cu \<Rightarrow> nat \<Rightarrow> nat option" where
  "indexOf s c from =
     (let k = length (takeWhile (\<lambda>x. x \<noteq> c) (drop from s))
      in if from + k < length s then Some (from + k) else None)"

text \<open>\<open>s.slice(a, b)\<close> for \<open>0 \<le> a\<close> and \<open>0 \<le> b\<close>.\<close>

definition slice :: "str \<Rightarrow> nat \<Rightarrow> nat \<Rightarrow> str" where
  "slice s a b = take (b - a) (drop a s)"

text \<open>\<open>input.startsWith(sep, pos)\<close>.\<close>

definition startsWith :: "str \<Rightarrow> str \<Rightarrow> nat \<Rightarrow> bool" where
  "startsWith input sep p \<longleftrightarrow> take (length sep) (drop p input) = sep"

section \<open>The compiled mask\<close>

text \<open>
  The repetition bounds of a symbol are numbers of the host language, doubles, of which the
  source uses non-negative integers and \<open>Infinity\<close>. They are only ever compared with a
  count of characters. The model takes them in \<open>enat\<close>: a finite double that is an integer
  is the natural number it equals.
\<close>

type_synonym number = enat

datatype SymbolKind = KindA | Kind0 | Literal

record SymbolNode =
  kind :: SymbolKind
  val :: "cu option"
  min_rep :: number
  max_rep :: number

datatype MaskNode = Symbol SymbolNode | Group (alternatives: "MaskNode list list")

record ParsedMask =
  fragments :: "MaskNode list list"
  separators :: "str list"

text \<open>
  \<open>fail(message)\<close> reports the message and throws a \<open>MaskError\<close> carrying it. The model
  has one error value for each message of the source; the report to the console is not
  modelled.
\<close>

datatype MaskError =
    PatternMustBeNonEmpty
  | UnmatchedClosingGroup
  | SeparatorMustBeClosed
  | EmptyFragmentBeforeSeparator
  | SeparatorsNotAllowedInsideGroups
  | UnclosedGroup
  | EmptyFragmentAtEnd
  | QuantifiersCannotBeAppliedToGroups
  | UnexpectedClosingBracket
  | UnexpectedBarOutsideGroup
  | EmptyAlternativeInGroup
  | UnexpectedSymbolInGroup cu
  | UnclosedQuantifier
  | EmptyQuantifier
  | InvalidQuantifier str
  | UnexpectedSymbol cu
  | UnexpectedBracketWithoutPair

section \<open>The pattern compiler\<close>

subsection \<open>splitBySeparators\<close>

function splitBySeparators_loop ::
  "str \<Rightarrow> nat \<Rightarrow> str \<Rightarrow> nat \<Rightarrow> str list \<Rightarrow> str list \<Rightarrow> MaskError + (str list \<times> str list)"
where
  "splitBySeparators_loop pattern i current depth frags seps =
     (if i < length pattern then
        (let ch = pattern ! i; next = char_at pattern (i + 1) in
         if ch = LBRACK \<and> next = Some LBRACK then
           splitBySeparators_loop pattern (i + 2) (current @ [LBRACK, LBRACK]) (depth + 1) frags seps
         else if ch = RBRACK \<and> next = Some RBRACK then
           (if depth = 0 then Inl UnmatchedClosingGroup
            else splitBySeparators_loop pattern (i + 2) (current @ [RBRACK, RBRACK]) (depth - 1) frags seps)
         else if ch = COLON \<and> depth = 0 then
           (case indexOf pattern COLON (i + 1) of
              None \<Rightarrow> Inl SeparatorMustBeClosed
            | Some e \<Rightarrow>
                if current = [] then Inl EmptyFragmentBeforeSeparator
                else splitBySeparators_loop pattern (e + 1) [] depth
                       (frags @ [current]) (seps @ [slice pattern (i + 1) e]))
         else if ch = COLON \<and> depth > 0 then Inl SeparatorsNotAllowedInsideGroups
         else splitBySeparators_loop pattern (i + 1) (current @ [ch]) depth frags seps)
      else if depth \<noteq> 0 then Inl UnclosedGroup
      else if current = [] then Inl EmptyFragmentAtEnd
      else Inr (frags @ [current], seps))"
  by pat_completeness auto

lemma indexOf_Some:
  "indexOf s c from = Some e \<Longrightarrow> from \<le> e \<and> e < length s \<and> s ! e = c"
proof -
  assume a: "indexOf s c from = Some e"
  define k where "k = length (takeWhile (\<lambda>x. x \<noteq> c) (drop from s))"
  from a have e: "e = from + k" and lt: "from + k < length s"
    by (auto simp: indexOf_def k_def Let_def split: if_splits)
  from lt have "k < length (drop from s)" by simp
  then have "drop from s ! k = c"
    unfolding k_def using nth_length_takeWhile [of "\<lambda>x. x \<noteq> c" "drop from s"] by auto
  with lt e show ?thesis by (simp add: add.commute)
qed

termination splitBySeparators_loop
  by (relation "measure (\<lambda>(pattern, i, current, depth, frags, seps). length pattern - i)")
     (auto dest: indexOf_Some)

declare splitBySeparators_loop.simps [simp del]

definition splitBySeparators :: "str \<Rightarrow> MaskError + (str list \<times> str list)" where
  "splitBySeparators pattern = splitBySeparators_loop pattern 0 [] 0 [] []"

subsection \<open>parseQuantifier and makeSymbolNode\<close>

text \<open>The test \<open>/^[1-9]\d*$/.test(body)\<close>.\<close>

definition positive_integer_re :: "str \<Rightarrow> bool" where
  "positive_integer_re body \<longleftrightarrow>
     (case body of [] \<Rightarrow> False | c # cs \<Rightarrow> 49 \<le> c \<and> c \<le> 57 \<and> list_all DIGIT_RE cs)"

text \<open>
  \<open>Number(body)\<close> on a string of decimal digits is the double nearest to the integer that
  the digits denote, the even one of two that are equally near, and \<open>Infinity\<close> when that is
  \<open>2^1024\<close> or more. An integer of at most 53 bits is a double; a longer one is rounded to
  its 53 leading bits. For a string of more than 20 significant digits the language leaves
  the choice between two neighbouring doubles to the implementation; the nearest double,
  which the engines return, is one of the two.
\<close>

definition digitsValue :: "str \<Rightarrow> nat" where
  "digitsValue body = foldl (\<lambda>n c. 10 * n + (unat c - 48)) 0 body"

fun bitLength :: "nat \<Rightarrow> nat" where
  "bitLength n = (if n = 0 then 0 else Suc (bitLength (n div 2)))"

declare bitLength.simps [simp del]

definition DOUBLE_OVERFLOW :: nat where
  "DOUBLE_OVERFLOW = 2 ^ 1024"

definition toDouble :: "nat \<Rightarrow> number" where
  "toDouble n =
     (if bitLength n \<le> 53 then enat n
      else (let e = bitLength n - 53; q = n div 2 ^ e; r = n mod 2 ^ e;
                rounded = (if 2 * r > 2 ^ e \<or> (2 * r = 2 ^ e \<and> odd q) then q + 1 else q)
            in if rounded * 2 ^ e \<ge> DOUBLE_OVERFLOW then \<infinity> else enat (rounded * 2 ^ e)))"

definition Number :: "str \<Rightarrow> number" where
  "Number body = toDouble (digitsValue body)"

definition parseQuantifier :: "str \<Rightarrow> nat \<Rightarrow> MaskError + (number \<times> number \<times> nat)" where
  "parseQuantifier fragment startIndex =
     (case indexOf fragment RBRACE startIndex of
        None \<Rightarrow> Inl UnclosedQuantifier
      | Some e \<Rightarrow>
          (let body = slice fragment startIndex e in
           if body = [] then Inl EmptyQuantifier
           else if body = [PLUS] then Inr (1, \<infinity>, e + 1)
           else if \<not> positive_integer_re body then Inl (InvalidQuantifier body)
           else (let count = Number body in Inr (count, count, e + 1))))"

definition makeSymbolNode :: "cu \<Rightarrow> MaskError + SymbolNode" where
  "makeSymbolNode ch =
     (if ch = COLON \<or> ch = LBRACE \<or> ch = RBRACE \<or> ch = BAR \<or> ch = RBRACK then Inl (UnexpectedSymbol ch)
      else if ch = LBRACK then Inl UnexpectedBracketWithoutPair
      else (let isLetter = (ch = LETTER_A); isDigit = (ch = DIGIT_0) in
            Inr \<lparr> kind = (if isLetter then KindA else if isDigit then Kind0 else Literal),
                  val = (if isLetter \<or> isDigit then None else Some ch),
                  min_rep = 1, max_rep = 1 \<rparr>))"

subsection \<open>parseFragment and its local function parseGroup\<close>

text \<open>
  \<open>parseGroup\<close> shares the scan index \<open>i\<close> of \<open>parseFragment\<close>; the model passes it in
  and returns it with the group. \<open>current\<close> and \<open>alts\<close> are the two local arrays.
\<close>

definition withQuantifier :: "SymbolNode \<Rightarrow> number \<Rightarrow> number \<Rightarrow> SymbolNode" where
  "withQuantifier node mn mx = node \<lparr> min_rep := mn, max_rep := mx \<rparr>"

function parseGroup ::
  "str \<Rightarrow> nat \<Rightarrow> MaskNode list \<Rightarrow> MaskNode list list \<Rightarrow> MaskError + (MaskNode \<times> nat)"
where
  "parseGroup fragment i current alts =
     (if i < length fragment then
        (let currentChar = fragment ! i; lookahead = char_at fragment (i + 1) in
         if currentChar = COLON \<and> lookahead \<noteq> None then Inl SeparatorsNotAllowedInsideGroups
         else if currentChar = LBRACK \<and> lookahead = Some LBRACK then
           (case parseGroup fragment (i + 2) [] [] of
              Inl e \<Rightarrow> Inl e
            | Inr (g, j) \<Rightarrow> parseGroup fragment j (current @ [g]) alts)
         else if currentChar = BAR then
           (if current = [] then Inl EmptyAlternativeInGroup
            else parseGroup fragment (i + 1) [] (alts @ [current]))
         else if currentChar = RBRACK \<and> lookahead = Some RBRACK then
           (if current = [] then Inl EmptyAlternativeInGroup
            else Inr (Group (alts @ [current]), i + 2))
         else if currentChar = RBRACK \<or> currentChar = LBRACE \<or> currentChar = RBRACE then
           Inl (UnexpectedSymbolInGroup currentChar)
         else
           (case makeSymbolNode currentChar of
              Inl e \<Rightarrow> Inl e
            | Inr node \<Rightarrow>
                if char_at fragment (i + 1) = Some LBRACE then
                  (case parseQuantifier fragment (i + 2) of
                     Inl e \<Rightarrow> Inl e
                   | Inr (mn, mx, nextIndex) \<Rightarrow>
                       parseGroup fragment nextIndex (current @ [Symbol (withQuantifier node mn mx)]) alts)
                else parseGroup fragment (i + 1) (current @ [Symbol node]) alts))
      else Inl UnclosedGroup)"
  by pat_completeness auto

lemma parseQuantifier_index:
  "parseQuantifier fragment startIndex = Inr (mn, mx, nextIndex) \<Longrightarrow>
     startIndex < nextIndex \<and> nextIndex \<le> length fragment"
  by (auto simp: parseQuantifier_def Let_def split: option.splits if_splits dest!: indexOf_Some)

lemmas special_chars = COLON_def LBRACK_def RBRACK_def LBRACE_def RBRACE_def BAR_def PLUS_def
  SPACE_def LETTER_A_def DIGIT_0_def

lemma special_chars_distinct [simp]:
  "COLON \<noteq> LBRACK" "COLON \<noteq> RBRACK" "COLON \<noteq> LBRACE" "COLON \<noteq> RBRACE" "COLON \<noteq> BAR"
  "LBRACK \<noteq> COLON" "LBRACK \<noteq> RBRACK" "LBRACK \<noteq> LBRACE" "LBRACK \<noteq> RBRACE" "LBRACK \<noteq> BAR"
  "RBRACK \<noteq> COLON" "RBRACK \<noteq> LBRACK" "RBRACK \<noteq> LBRACE" "RBRACK \<noteq> RBRACE" "RBRACK \<noteq> BAR"
  "LBRACE \<noteq> COLON" "LBRACE \<noteq> LBRACK" "LBRACE \<noteq> RBRACK" "LBRACE \<noteq> RBRACE" "LBRACE \<noteq> BAR"
  "RBRACE \<noteq> COLON" "RBRACE \<noteq> LBRACK" "RBRACE \<noteq> RBRACK" "RBRACE \<noteq> LBRACE" "RBRACE \<noteq> BAR"
  "BAR \<noteq> COLON" "BAR \<noteq> LBRACK" "BAR \<noteq> RBRACK" "BAR \<noteq> LBRACE" "BAR \<noteq> RBRACE"
  by (simp_all add: special_chars)

lemma parseGroup_index_dom:
  "parseGroup_dom (fragment, i, current, alts) \<Longrightarrow>
     parseGroup fragment i current alts = Inr (g, j) \<Longrightarrow> i < j \<and> j \<le> length fragment"
proof (induction fragment i current alts arbitrary: g j rule: parseGroup.pinduct)
  case (1 fragment i current alts)
  note ps = parseGroup.psimps [OF "1.hyps"]
  define ch where "ch = fragment ! i"
  define la where "la = char_at fragment (i + 1)"
  show ?case
  proof (cases "i < length fragment")
    case False
    with "1.prems" show ?thesis by (subst (asm) ps) simp
  next
    case lt: True
    have la2: "la \<noteq> None \<Longrightarrow> i + 2 \<le> length fragment"
      by (auto simp: la_def char_at_def split: if_splits)
    consider (colon) "ch = COLON \<and> la \<noteq> None"
      | (nested) "\<not> (ch = COLON \<and> la \<noteq> None)" "ch = LBRACK \<and> la = Some LBRACK"
      | (bar) "\<not> (ch = COLON \<and> la \<noteq> None)" "\<not> (ch = LBRACK \<and> la = Some LBRACK)" "ch = BAR"
      | (close) "\<not> (ch = COLON \<and> la \<noteq> None)" "\<not> (ch = LBRACK \<and> la = Some LBRACK)" "ch \<noteq> BAR"
          "ch = RBRACK \<and> la = Some RBRACK"
      | (bad) "\<not> (ch = COLON \<and> la \<noteq> None)" "\<not> (ch = LBRACK \<and> la = Some LBRACK)" "ch \<noteq> BAR"
          "\<not> (ch = RBRACK \<and> la = Some RBRACK)" "ch = RBRACK \<or> ch = LBRACE \<or> ch = RBRACE"
      | (sym) "\<not> (ch = COLON \<and> la \<noteq> None)" "\<not> (ch = LBRACK \<and> la = Some LBRACK)" "ch \<noteq> BAR"
          "\<not> (ch = RBRACK \<and> la = Some RBRACK)" "\<not> (ch = RBRACK \<or> ch = LBRACE \<or> ch = RBRACE)"
      by blast
    then show ?thesis
    proof cases
      case colon
      with "1.prems" lt show ?thesis
        by (subst (asm) ps) (simp add: ch_def la_def Let_def)
    next
      case nested
      from "1.prems" lt nested obtain g1 j1 where
        r1: "parseGroup fragment (i + 2) [] [] = Inr (g1, j1)" and
        r2: "parseGroup fragment j1 (current @ [g1]) alts = Inr (g, j)"
        by (subst (asm) ps) (auto simp: ch_def la_def Let_def split: sum.splits)
      from "1.IH"(1) [OF lt ch_def la_def nested [unfolded ch_def la_def, folded ch_def la_def] r1]
      have "i + 2 < j1" by simp
      moreover from "1.IH"(2) [OF lt ch_def la_def nested r1 refl r2]
      have "j1 < j \<and> j \<le> length fragment" .
      ultimately show ?thesis by simp
    next
      case bar
      with "1.prems" lt have "current \<noteq> [] \<and>
          parseGroup fragment (i + 1) [] (alts @ [current]) = Inr (g, j)"
        by (subst (asm) ps) (simp add: ch_def la_def Let_def split: if_splits)
      then have nonempty: "current \<noteq> []"
        and r: "parseGroup fragment (i + 1) [] (alts @ [current]) = Inr (g, j)" by simp_all
      from "1.IH"(3) [OF lt ch_def la_def bar nonempty r] show ?thesis by simp
    next
      case close
      with "1.prems" lt have "j = i + 2"
        by (subst (asm) ps) (simp add: ch_def la_def Let_def split: if_splits)
      with la2 close show ?thesis by simp
    next
      case bad
      with "1.prems" lt show ?thesis
        by (subst (asm) ps) (auto simp: ch_def la_def Let_def split: if_splits)
    next
      case sym
      from "1.prems" lt sym obtain node where
        mk: "makeSymbolNode ch = Inr node"
        by (subst (asm) ps) (auto simp: ch_def la_def Let_def split: sum.splits)
      show ?thesis
      proof (cases "char_at fragment (i + 1) = Some LBRACE")
        case True
        from "1.prems" lt sym mk True obtain mn mx nextIndex where
          q: "parseQuantifier fragment (i + 2) = Inr (mn, mx, nextIndex)" and
          r: "parseGroup fragment nextIndex (current @ [Symbol (withQuantifier node mn mx)]) alts = Inr (g, j)"
          by (subst (asm) ps) (auto simp: ch_def la_def Let_def split: sum.splits)
        from "1.IH"(4) [OF lt ch_def la_def sym mk True q refl refl r]
        have "nextIndex < j \<and> j \<le> length fragment" .
        with parseQuantifier_index [OF q] show ?thesis by simp
      next
        case False
        from "1.prems" lt sym mk False have
          r: "parseGroup fragment (i + 1) (current @ [Symbol node]) alts = Inr (g, j)"
          by (subst (asm) ps) (auto simp: ch_def la_def Let_def split: sum.splits)
        from "1.IH"(5) [OF lt ch_def la_def sym mk False r] show ?thesis by simp
      qed
    qed
  qed
qed

lemma parseGroup_total: "All parseGroup_dom"
  by (relation "measure (\<lambda>(fragment, i, current, alts). length fragment - i)")
     (auto dest!: parseGroup_index_dom parseQuantifier_index)

termination parseGroup
  by (rule parseGroup_total)

declare parseGroup.simps [simp del]

lemma parseGroup_index:
  "parseGroup fragment i current alts = Inr (g, j) \<Longrightarrow> i < j \<and> j \<le> length fragment"
  using parseGroup_index_dom parseGroup_total by blast

function parseFragment_loop :: "str \<Rightarrow> nat \<Rightarrow> MaskNode list \<Rightarrow> MaskError + MaskNode list" where
  "parseFragment_loop fragment i nodes =
     (if i < length fragment then
        (let ch = fragment ! i; next = char_at fragment (i + 1) in
         if ch = LBRACK \<and> next = Some LBRACK then
           (case parseGroup fragment (i + 2) [] [] of
              Inl e \<Rightarrow> Inl e
            | Inr (groupNode, j) \<Rightarrow>
                if char_at fragment j = Some LBRACE then Inl QuantifiersCannotBeAppliedToGroups
                else parseFragment_loop fragment j (nodes @ [groupNode]))
         else if ch = RBRACK \<or> (ch = RBRACK \<and> next = Some RBRACK) then Inl UnexpectedClosingBracket
         else if ch = BAR then Inl UnexpectedBarOutsideGroup
         else
           (case makeSymbolNode ch of
              Inl e \<Rightarrow> Inl e
            | Inr node \<Rightarrow>
                if char_at fragment (i + 1) = Some LBRACE then
                  (case parseQuantifier fragment (i + 2) of
                     Inl e \<Rightarrow> Inl e
                   | Inr (mn, mx, nextIndex) \<Rightarrow>
                       parseFragment_loop fragment nextIndex (nodes @ [Symbol (withQuantifier node mn mx)]))
                else parseFragment_loop fragment (i + 1) (nodes @ [Symbol node])))
      else Inr nodes)"
  by pat_completeness auto

termination parseFragment_loop
  by (relation "measure (\<lambda>(fragment, i, nodes). length fragment - i)")
     (auto dest!: parseGroup_index parseQuantifier_index)

declare parseFragment_loop.simps [simp del]

definition parseFragment :: "str \<Rightarrow> MaskError + MaskNode list" where
  "parseFragment fragment = parseFragment_loop fragment 0 []"

text \<open>\<open>rawFragments.map(parseFragment)\<close>: the first fragment that fails throws.\<close>

fun parseFragments :: "str list \<Rightarrow> MaskError + MaskNode list list" where
  "parseFragments [] = Inr []"
| "parseFragments (f # fs) =
     (case parseFragment f of
        Inl e \<Rightarrow> Inl e
      | Inr nodes \<Rightarrow> (case parseFragments fs of Inl e \<Rightarrow> Inl e | Inr rest \<Rightarrow> Inr (nodes # rest)))"

definition parseMask :: "str \<Rightarrow> MaskError + ParsedMask" where
  "parseMask pattern =
     (if pattern = [] then Inl PatternMustBeNonEmpty
      else case splitBySeparators pattern of
             Inl e \<Rightarrow> Inl e
           | Inr (rawFragments, seps) \<Rightarrow>
               (case parseFragments rawFragments of
                  Inl e \<Rightarrow> Inl e
                | Inr frags \<Rightarrow> Inr \<lparr> fragments = frags, separators = seps \<rparr>))"

section \<open>The formatting engine\<close>

record ConsumeResult =
  out :: str
  raw :: str
  pos :: nat
  satisfied :: bool
  advanced :: int

fun separatorLengthAt :: "str \<Rightarrow> nat \<Rightarrow> str list \<Rightarrow> nat" where
  "separatorLengthAt input p [] = 0"
| "separatorLengthAt input p (sep # seps) =
     (if sep = [] then separatorLengthAt input p seps
      else if startsWith input sep p then length sep
      else separatorLengthAt input p seps)"

lemma separatorLengthAt_bound:
  "0 < separatorLengthAt input p seps \<Longrightarrow> p + separatorLengthAt input p seps \<le> length input"
proof (induction seps)
  case Nil
  then show ?case by simp
next
  case (Cons sep seps)
  show ?case
  proof (cases "sep \<noteq> [] \<and> startsWith input sep p")
    case True
    then have "length (take (length sep) (drop p input)) = length sep"
      by (simp add: startsWith_def)
    then have "length sep \<le> length input - p" by simp
    moreover from True have "0 < length sep" by simp
    ultimately have "p + length sep \<le> length input" by arith
    with True show ?thesis by simp
  next
    case False
    then have "separatorLengthAt input p (sep # seps) = separatorLengthAt input p seps"
      by auto
    with Cons show ?thesis by simp
  qed
qed

function skipSeparators :: "str \<Rightarrow> nat \<Rightarrow> str list \<Rightarrow> nat" where
  "skipSeparators input p seps =
     (let sepAhead = separatorLengthAt input p seps in
      if sepAhead > 0 then skipSeparators input (p + sepAhead) seps else p)"
  by pat_completeness auto

termination skipSeparators
proof (relation "measure (\<lambda>(input, p, seps). length input - p)")
  show "wf (measure (\<lambda>(input, p, seps). length input - p))" by simp
next
  fix input :: str and p :: nat and seps :: "str list" and x :: nat
  assume x: "x = separatorLengthAt input p seps" and pos: "0 < x"
  with separatorLengthAt_bound [of input p seps] have "p + x \<le> length input" by simp
  with pos show "((input, p + x, seps), (input, p, seps)) \<in> measure (\<lambda>(input, p, seps). length input - p)"
    by simp
qed

declare skipSeparators.simps [simp del]

definition matchesNode :: "SymbolNode \<Rightarrow> cu \<Rightarrow> bool" where
  "matchesNode node ch =
     (if kind node = KindA then LETTER_RE ch
      else if kind node = Kind0 then DIGIT_RE ch
      else Some ch = val node)"

fun canStartWithChar :: "MaskNode list \<Rightarrow> cu \<Rightarrow> bool"
  and canStartWithChar_alts :: "MaskNode list list \<Rightarrow> cu \<Rightarrow> bool"
where
  "canStartWithChar [] ch = False"
| "canStartWithChar (Symbol first # rest) ch = matchesNode first ch"
| "canStartWithChar (Group alts # rest) ch = canStartWithChar_alts alts ch"
| "canStartWithChar_alts [] ch = False"
| "canStartWithChar_alts (alt # alts) ch =
     (if canStartWithChar alt ch then True else canStartWithChar_alts alts ch)"

function consumeSymbol_loop ::
  "SymbolNode \<Rightarrow> str \<Rightarrow> nat \<Rightarrow> str list \<Rightarrow> MaskNode list \<Rightarrow> str \<Rightarrow> str \<Rightarrow> nat \<Rightarrow> nat \<Rightarrow> ConsumeResult"
where
  "consumeSymbol_loop node input startPos seps remainingNodes ou ra p count =
     (if p < length input \<and> enat count < max_rep node then
        (let sepLen = separatorLengthAt input p seps in
         if sepLen > 0 then
           \<lparr> out = ou, raw = ra, pos = p + sepLen, satisfied = (enat count \<ge> min_rep node),
             advanced = int p - int startPos \<rparr>
         else
           (let ch = input ! p in
            if matchesNode node ch then
              consumeSymbol_loop node input startPos seps remainingNodes (ou @ [ch]) (ra @ [ch]) (p + 1) (count + 1)
            else if enat count \<ge> min_rep node \<and> canStartWithChar remainingNodes ch then
              \<lparr> out = ou, raw = ra, pos = p, satisfied = (enat count \<ge> min_rep node),
                advanced = int p - int startPos \<rparr>
            else consumeSymbol_loop node input startPos seps remainingNodes ou ra (p + 1) count))
      else
        \<lparr> out = ou, raw = ra, pos = p, satisfied = (enat count \<ge> min_rep node),
          advanced = int p - int startPos \<rparr>)"
  by pat_completeness auto

termination consumeSymbol_loop
  by (relation "measure (\<lambda>(node, input, startPos, seps, remainingNodes, ou, ra, p, count). length input - p)")
     auto

declare consumeSymbol_loop.simps [simp del]

definition consumeSymbol ::
  "SymbolNode \<Rightarrow> str \<Rightarrow> nat \<Rightarrow> str list \<Rightarrow> MaskNode list \<Rightarrow> ConsumeResult" where
  "consumeSymbol node input startPos seps remainingNodes =
     consumeSymbol_loop node input startPos seps remainingNodes [] [] startPos 0"

definition better :: "ConsumeResult \<Rightarrow> ConsumeResult \<Rightarrow> bool" where
  "better result best \<longleftrightarrow>
     length (raw result) > length (raw best)
     \<or> (length (raw result) = length (raw best) \<and> advanced result < advanced best)
     \<or> (length (raw result) = length (raw best) \<and> advanced result = advanced best
         \<and> satisfied result \<and> \<not> satisfied best)"

definition lookaheadOf :: "MaskNode list \<Rightarrow> MaskNode list option \<Rightarrow> MaskNode list" where
  "lookaheadOf remaining tailNodes =
     (case tailNodes of
        None \<Rightarrow> remaining
      | Some t \<Rightarrow> if t \<noteq> [] then remaining @ t else remaining)"

function (sequential) consumeNodes_loop ::
  "MaskNode list \<Rightarrow> str \<Rightarrow> nat \<Rightarrow> str list \<Rightarrow> MaskNode list option \<Rightarrow> str \<Rightarrow> str \<Rightarrow> nat \<Rightarrow> ConsumeResult"
  and consumeNode :: "MaskNode \<Rightarrow> str \<Rightarrow> nat \<Rightarrow> str list \<Rightarrow> MaskNode list \<Rightarrow> ConsumeResult"
  and consumeGroup_loop ::
  "MaskNode list list \<Rightarrow> str \<Rightarrow> nat \<Rightarrow> str list \<Rightarrow> MaskNode list \<Rightarrow> ConsumeResult \<Rightarrow> ConsumeResult"
where
  "consumeNodes_loop [] input startPos seps tailNodes ou ra p =
     \<lparr> out = ou, raw = ra, pos = p, satisfied = True, advanced = int p - int startPos \<rparr>"
| "consumeNodes_loop (node # remaining) input startPos seps tailNodes ou ra p =
     (let result = consumeNode node input (skipSeparators input p seps) seps
                     (lookaheadOf remaining tailNodes) in
      if \<not> satisfied result then
        \<lparr> out = ou @ out result, raw = ra @ raw result, pos = pos result, satisfied = False,
          advanced = int (pos result) - int startPos \<rparr>
      else consumeNodes_loop remaining input startPos seps tailNodes
             (ou @ out result) (ra @ raw result) (pos result))"
| "consumeNode (Symbol node) input startPos seps remainingNodes =
     consumeSymbol node input startPos seps remainingNodes"
| "consumeNode (Group alts) input startPos seps remainingNodes =
     consumeGroup_loop alts input startPos seps remainingNodes
       \<lparr> out = [], raw = [], pos = startPos, satisfied = False, advanced = 0 \<rparr>"
| "consumeGroup_loop [] input startPos seps tailNodes best = best"
| "consumeGroup_loop (alt # alts) input startPos seps tailNodes best =
     (let result = consumeNodes_loop alt input startPos seps (Some tailNodes) [] [] startPos in
      consumeGroup_loop alts input startPos seps tailNodes (if better result best then result else best))"
  by pat_completeness auto

termination
  by (relation "measure (\<lambda>x. case x of
        Inl (nodes, input, startPos, seps, tailNodes, ou, ra, p) \<Rightarrow> 2 * size_list size nodes + 1
      | Inr (Inl (node, input, startPos, seps, remainingNodes)) \<Rightarrow> 2 * size node
      | Inr (Inr (alts, input, startPos, seps, tailNodes, best)) \<Rightarrow> 2 * size_list (size_list size) alts + 1)")
     auto

definition consumeNodes ::
  "MaskNode list \<Rightarrow> str \<Rightarrow> nat \<Rightarrow> str list \<Rightarrow> MaskNode list option \<Rightarrow> ConsumeResult" where
  "consumeNodes nodes input startPos seps tailNodes =
     consumeNodes_loop nodes input startPos seps tailNodes [] [] startPos"

definition consumeGroup ::
  "MaskNode list list \<Rightarrow> str \<Rightarrow> nat \<Rightarrow> str list \<Rightarrow> MaskNode list \<Rightarrow> ConsumeResult" where
  "consumeGroup alts input startPos seps tailNodes =
     consumeGroup_loop alts input startPos seps tailNodes
       \<lparr> out = [], raw = [], pos = startPos, satisfied = False, advanced = 0 \<rparr>"


subsection \<open>formatValue\<close>

text \<open>
  The raw value is of the type \<open>unknown\<close>. The source tests it against \<open>null\<close> with \<open>==\<close>,
  which holds of \<open>null\<close> and \<open>undefined\<close> only, and converts every other value with
  \<open>String\<close>. The values of the host language are not modelled: a value that is neither
  is given by its textual form, the string that \<open>String\<close> returns for it.
\<close>

datatype RawValue = Null | Undefined | Value str

definition inputOf :: "RawValue \<Rightarrow> str" where
  "inputOf rawValue = (case rawValue of Null \<Rightarrow> [] | Undefined \<Rightarrow> [] | Value s \<Rightarrow> s)"

fun hasNonDigitSymbol :: "MaskNode list \<Rightarrow> bool"
  and hasNonDigitSymbol_alts :: "MaskNode list list \<Rightarrow> bool"
where
  "hasNonDigitSymbol [] = False"
| "hasNonDigitSymbol (Symbol node # rest) =
     (if kind node \<noteq> Kind0 then True else hasNonDigitSymbol rest)"
| "hasNonDigitSymbol (Group alts # rest) =
     (if hasNonDigitSymbol_alts alts then True else hasNonDigitSymbol rest)"
| "hasNonDigitSymbol_alts [] = False"
| "hasNonDigitSymbol_alts (alt # alts) =
     (if hasNonDigitSymbol alt then True else hasNonDigitSymbol_alts alts)"

definition separatorsAreSpaces :: "ParsedMask \<Rightarrow> bool" where
  "separatorsAreSpaces parsed \<longleftrightarrow>
     length (separators parsed) > 0 \<and> list_all (\<lambda>s. s = [SPACE]) (separators parsed)"

definition manualSpaceMask :: "ParsedMask \<Rightarrow> bool" where
  "manualSpaceMask parsed \<longleftrightarrow>
     separatorsAreSpaces parsed \<and> list_ex hasNonDigitSymbol (fragments parsed)"

text \<open>\<open>/\s$/.test(input)\<close>, \<open>input.split(/\s+/)\<close>, \<open>xs.join(sep)\<close>,
  \<open>masked.replace(/\s+$/, ' ')\<close> and \<open>masked.trimEnd()\<close>.\<close>

definition hasTrailingSpace :: "str \<Rightarrow> bool" where
  "hasTrailingSpace input \<longleftrightarrow> input \<noteq> [] \<and> is_space (last input)"

function split_spaces :: "str \<Rightarrow> str \<Rightarrow> str list" where
  "split_spaces [] current = [current]"
| "split_spaces (c # cs) current =
     (if is_space c then current # split_spaces (dropWhile is_space cs) []
      else split_spaces cs (current @ [c]))"
  by pat_completeness auto

termination split_spaces
  by (relation "measure (\<lambda>(s, current). length s)")
     (auto simp: length_dropWhile_le less_Suc_eq_le)

fun join :: "str list \<Rightarrow> str \<Rightarrow> str" where
  "join [] sep = []"
| "join [x] sep = x"
| "join (x # y # ys) sep = x @ sep @ join (y # ys) sep"

definition trimEnd :: "str \<Rightarrow> str" where
  "trimEnd s = rev (dropWhile is_space (rev s))"

definition replaceTrailingSpaces :: "str \<Rightarrow> str" where
  "replaceTrailingSpaces s = (if hasTrailingSpace s then trimEnd s @ [SPACE] else s)"

text \<open>The loop of the manual-space branch; \<open>parts\<close> holds \<open>parts[i]\<close>, \<open>parts[i + 1]\<close>, ...\<close>

fun manual_loop ::
  "MaskNode list list \<Rightarrow> str list \<Rightarrow> str list \<Rightarrow> str list \<Rightarrow> str list \<times> str list" where
  "manual_loop [] parts fragmentsOut fragmentsRaw = (fragmentsOut, fragmentsRaw)"
| "manual_loop (fragmentNodes # rest) parts fragmentsOut fragmentsRaw =
     (let valuePart = (case parts of [] \<Rightarrow> [] | part # _ \<Rightarrow> part);
          result = consumeNodes fragmentNodes valuePart 0 [] None in
      if \<not> satisfied result then (fragmentsOut @ [out result], fragmentsRaw @ [raw result])
      else manual_loop rest (tl parts) (fragmentsOut @ [out result]) (fragmentsRaw @ [raw result]))"

text \<open>The loop of the contiguous branch; \<open>tail\<close> is \<open>parsed.fragments[i + 1]\<close>.\<close>

definition nextFragment :: "MaskNode list list \<Rightarrow> MaskNode list option" where
  "nextFragment rest = (case rest of [] \<Rightarrow> None | t # _ \<Rightarrow> Some t)"

fun contiguous_loop ::
  "MaskNode list list \<Rightarrow> str \<Rightarrow> str list \<Rightarrow> nat \<Rightarrow> str list \<Rightarrow> str list \<Rightarrow> str list \<times> str list" where
  "contiguous_loop [] input sepList p fragmentsOut fragmentsRaw = (fragmentsOut, fragmentsRaw)"
| "contiguous_loop (fragmentNodes # rest) input sepList p fragmentsOut fragmentsRaw =
     (let tail = nextFragment rest;
          result = consumeNodes fragmentNodes input p sepList tail in
      if \<not> satisfied result then (fragmentsOut @ [out result], fragmentsRaw @ [raw result])
      else contiguous_loop rest input sepList (pos result)
             (fragmentsOut @ [out result]) (fragmentsRaw @ [raw result]))"

fun joinWithSeparators :: "str list \<Rightarrow> str list \<Rightarrow> str" where
  "joinWithSeparators [] seps = []"
| "joinWithSeparators (part # rest) seps =
     (if part = [] then []
      else part
        @ (case seps of
             [] \<Rightarrow> []
           | sep # _ \<Rightarrow> (case rest of [] \<Rightarrow> [] | nextPart # _ \<Rightarrow> if nextPart \<noteq> [] then sep else []))
        @ joinWithSeparators rest (tl seps))"

text \<open>\<open>separators.filter(Boolean).sort((a, b) => b.length - a.length)\<close>: the non-empty
  separators, the longest first, in a stable order.\<close>

definition sepListOf :: "str list \<Rightarrow> str list" where
  "sepListOf seps = sort_key (\<lambda>s. - int (length s)) (filter (\<lambda>s. s \<noteq> []) seps)"

record FormatResult =
  raw_value :: str
  masked :: str

definition formatValue :: "ParsedMask \<Rightarrow> RawValue \<Rightarrow> FormatResult" where
  "formatValue parsed rawValue =
     (let input = inputOf rawValue in
      if manualSpaceMask parsed then
        (let parts = filter (\<lambda>s. s \<noteq> []) (split_spaces input []);
             (fragmentsOut, fragmentsRaw) = manual_loop (fragments parsed) parts [] [];
             joined = join fragmentsOut [SPACE] in
         \<lparr> raw_value = concat fragmentsRaw,
           masked = (if hasTrailingSpace input then replaceTrailingSpaces joined else trimEnd joined) \<rparr>)
      else
        (let sepList = sepListOf (separators parsed);
             (fragmentsOut, fragmentsRaw) = contiguous_loop (fragments parsed) input sepList 0 [] [] in
         \<lparr> raw_value = concat fragmentsRaw,
           masked = joinWithSeparators fragmentsOut (separators parsed) \<rparr>))"

text \<open>\<open>Mask.create(pattern).format(value)\<close>: \<open>create\<close> throws what \<open>parseMask\<close> throws.\<close>

definition format :: "ParsedMask \<Rightarrow> RawValue \<Rightarrow> str" where
  "format parsed v = masked (formatValue parsed v)"

definition create_format :: "str \<Rightarrow> RawValue \<Rightarrow> MaskError + str" where
  "create_format pattern v =
     (case parseMask pattern of Inl e \<Rightarrow> Inl e | Inr parsed \<Rightarrow> Inr (format parsed v))"

section \<open>Group consumption selects the best candidate\<close>

text \<open>The value \<open>best\<close> starts from in \<open>consumeGroup\<close>.\<close>

definition initialBest :: "nat \<Rightarrow> ConsumeResult" where
  "initialBest startPos = \<lparr> out = [], raw = [], pos = startPos, satisfied = False, advanced = 0 \<rparr>"

text \<open>The ordering in the words of the specification: \<open>a\<close> is at least as good as \<open>b\<close>.\<close>

definition atLeastAsGood :: "ConsumeResult \<Rightarrow> ConsumeResult \<Rightarrow> bool" where
  "atLeastAsGood a b \<longleftrightarrow>
     length (raw b) < length (raw a)
     \<or> (length (raw b) = length (raw a)
         \<and> (advanced a < advanced b
            \<or> (advanced a = advanced b \<and> (satisfied a \<or> \<not> satisfied b))))"

lemma better_iff: "better r b \<longleftrightarrow> \<not> atLeastAsGood b r"
  by (auto simp: better_def atLeastAsGood_def)

lemma atLeastAsGood_refl: "atLeastAsGood a a"
  by (simp add: atLeastAsGood_def)

lemma lex_order_trans:
  fixes la lb lc :: nat and aa ab ac :: int
  assumes "lb < la \<or> (lb = la \<and> (aa < ab \<or> (aa = ab \<and> (sa \<or> \<not> sb))))"
    and "lc < lb \<or> (lc = lb \<and> (ab < ac \<or> (ab = ac \<and> (sb \<or> \<not> sc))))"
  shows "lc < la \<or> (lc = la \<and> (aa < ac \<or> (aa = ac \<and> (sa \<or> \<not> sc))))"
proof -
  consider "lb < la" | "lb = la" "aa < ab" | "lb = la" "aa = ab" "sa \<or> \<not> sb"
    using assms(1) by blast
  then show ?thesis
  proof cases
    case 1
    with assms(2) show ?thesis by linarith
  next
    case 2
    with assms(2) show ?thesis by linarith
  next
    case 3
    with assms(2) show ?thesis by blast
  qed
qed

lemma atLeastAsGood_trans: "atLeastAsGood a b \<Longrightarrow> atLeastAsGood b c \<Longrightarrow> atLeastAsGood a c"
  unfolding atLeastAsGood_def by (rule lex_order_trans)

lemma atLeastAsGood_total: "atLeastAsGood a b \<or> atLeastAsGood b a"
  by (auto simp: atLeastAsGood_def)

lemma consumeGroup_loop_fold:
  "consumeGroup_loop alts input startPos seps tailNodes best =
     foldl (\<lambda>b alt. let r = consumeNodes alt input startPos seps (Some tailNodes)
                     in if better r b then r else b) best alts"
  by (induction alts arbitrary: best) (simp_all add: consumeNodes_def Let_def)

lemma consumeGroup_loop_best:
  "atLeastAsGood (consumeGroup_loop alts input startPos seps tailNodes best) best
   \<and> (\<forall>alt \<in> set alts. atLeastAsGood (consumeGroup_loop alts input startPos seps tailNodes best)
         (consumeNodes alt input startPos seps (Some tailNodes)))
   \<and> (consumeGroup_loop alts input startPos seps tailNodes best = best
      \<or> (\<exists>alt \<in> set alts. consumeGroup_loop alts input startPos seps tailNodes best
            = consumeNodes alt input startPos seps (Some tailNodes)))"
proof (induction alts arbitrary: best)
  case Nil
  show ?case by (simp add: atLeastAsGood_refl)
next
  case (Cons alt alts)
  define r where "r = consumeNodes alt input startPos seps (Some tailNodes)"
  define b' where "b' = (if better r best then r else best)"
  have step: "consumeGroup_loop (alt # alts) input startPos seps tailNodes best
                = consumeGroup_loop alts input startPos seps tailNodes b'"
    by (simp add: r_def b'_def consumeNodes_def Let_def)
  have b'_best: "atLeastAsGood b' best" and b'_r: "atLeastAsGood b' r"
  proof -
    show "atLeastAsGood b' best"
    proof (cases "better r best")
      case True
      then have "\<not> atLeastAsGood best r" by (simp add: better_iff)
      with atLeastAsGood_total [of best r] True show ?thesis by (simp add: b'_def)
    next
      case False
      then show ?thesis by (simp add: b'_def atLeastAsGood_refl)
    qed
    show "atLeastAsGood b' r"
    proof (cases "better r best")
      case True
      then show ?thesis by (simp add: b'_def atLeastAsGood_refl)
    next
      case False
      then show ?thesis by (simp add: b'_def better_iff)
    qed
  qed
  have b'_cases: "b' = best \<or> b' = r" by (simp add: b'_def)
  let ?res = "consumeGroup_loop alts input startPos seps tailNodes b'"
  from Cons.IH [of b'] have
    ih1: "atLeastAsGood ?res b'" and
    ih2: "\<forall>a \<in> set alts. atLeastAsGood ?res (consumeNodes a input startPos seps (Some tailNodes))" and
    ih3: "?res = b' \<or> (\<exists>a \<in> set alts. ?res = consumeNodes a input startPos seps (Some tailNodes))"
    by blast+
  have c1: "atLeastAsGood ?res best"
    using ih1 b'_best by (rule atLeastAsGood_trans)
  have c2: "atLeastAsGood ?res r"
    using ih1 b'_r by (rule atLeastAsGood_trans)
  have c3: "?res = best \<or> (\<exists>a \<in> set (alt # alts). ?res = consumeNodes a input startPos seps (Some tailNodes))"
    using ih3 b'_cases r_def by auto
  from c1 c2 ih2 c3 show ?case
    unfolding step by (simp add: r_def)
qed

text \<open>
  C3, as amended. Every alternative of a group is consumed from the same start position
  with the same lookahead. The result of the group is the best of the candidates under
  the ordering of the specification (a longer recognised raw text first, then a smaller
  advance of the cursor, then satisfied before unsatisfied), where the candidates are the
  results of the alternatives and, before them, the initial result: empty, unsatisfied, at
  the start position, with no advance.
\<close>

theorem consumeGroup_selects_best:
  "consumeGroup alts input startPos seps tailNodes
     \<in> set (initialBest startPos # map (\<lambda>alt. consumeNodes alt input startPos seps (Some tailNodes)) alts)
   \<and> (\<forall>r \<in> set (initialBest startPos # map (\<lambda>alt. consumeNodes alt input startPos seps (Some tailNodes)) alts).
        length (raw r) \<le> length (raw (consumeGroup alts input startPos seps tailNodes))
        \<and> (length (raw r) = length (raw (consumeGroup alts input startPos seps tailNodes))
             \<longrightarrow> advanced (consumeGroup alts input startPos seps tailNodes) \<le> advanced r)
        \<and> (length (raw r) = length (raw (consumeGroup alts input startPos seps tailNodes))
              \<and> advanced r = advanced (consumeGroup alts input startPos seps tailNodes)
              \<and> satisfied r
             \<longrightarrow> satisfied (consumeGroup alts input startPos seps tailNodes)))"
proof -
  let ?best = "consumeGroup alts input startPos seps tailNodes"
  let ?cands = "initialBest startPos # map (\<lambda>alt. consumeNodes alt input startPos seps (Some tailNodes)) alts"
  have eq: "?best = consumeGroup_loop alts input startPos seps tailNodes (initialBest startPos)"
    by (simp add: consumeGroup_def initialBest_def)
  note b = consumeGroup_loop_best [of alts input startPos seps tailNodes "initialBest startPos", folded eq]
  from b have mem: "?best \<in> set ?cands" by auto
  from b have dom: "\<forall>r \<in> set ?cands. atLeastAsGood ?best r" by auto
  have "\<And>r. atLeastAsGood ?best r \<Longrightarrow>
        length (raw r) \<le> length (raw ?best)
        \<and> (length (raw r) = length (raw ?best) \<longrightarrow> advanced ?best \<le> advanced r)
        \<and> (length (raw r) = length (raw ?best) \<and> advanced r = advanced ?best \<and> satisfied r
             \<longrightarrow> satisfied ?best)"
    unfolding atLeastAsGood_def by linarith
  with mem dom show ?thesis by blast
qed

text \<open>
  The group \<open>[[0{2}|0{3}|A]]\<close> on the input \<open>123\<close>: the second alternative recognises the
  longest text and is the result.
\<close>

theorem consumeGroup_selects_best_witness:
  "consumeGroup
     [[Symbol \<lparr>kind = Kind0, val = None, min_rep = 2, max_rep = 2\<rparr>],
      [Symbol \<lparr>kind = Kind0, val = None, min_rep = 3, max_rep = 3\<rparr>],
      [Symbol \<lparr>kind = KindA, val = None, min_rep = 1, max_rep = 1\<rparr>]] (asc ''123'') 0 [] []
     = consumeNodes [Symbol \<lparr>kind = Kind0, val = None, min_rep = 3, max_rep = 3\<rparr>] (asc ''123'') 0 [] (Some [])
   \<and> length (raw (consumeNodes [Symbol \<lparr>kind = Kind0, val = None, min_rep = 2, max_rep = 2\<rparr>] (asc ''123'') 0 [] (Some [])))
       \<le> length (raw (consumeGroup
     [[Symbol \<lparr>kind = Kind0, val = None, min_rep = 2, max_rep = 2\<rparr>],
      [Symbol \<lparr>kind = Kind0, val = None, min_rep = 3, max_rep = 3\<rparr>],
      [Symbol \<lparr>kind = KindA, val = None, min_rep = 1, max_rep = 1\<rparr>]] (asc ''123'') 0 [] []))"
proof -
  have e: "consumeGroup
     [[Symbol \<lparr>kind = Kind0, val = None, min_rep = 2, max_rep = 2\<rparr>],
      [Symbol \<lparr>kind = Kind0, val = None, min_rep = 3, max_rep = 3\<rparr>],
      [Symbol \<lparr>kind = KindA, val = None, min_rep = 1, max_rep = 1\<rparr>]] (asc ''123'') 0 [] []
     = consumeNodes [Symbol \<lparr>kind = Kind0, val = None, min_rep = 3, max_rep = 3\<rparr>] (asc ''123'') 0 [] (Some [])"
    by code_simp
  from consumeGroup_selects_best [of
     "[[Symbol \<lparr>kind = Kind0, val = None, min_rep = 2, max_rep = 2\<rparr>],
      [Symbol \<lparr>kind = Kind0, val = None, min_rep = 3, max_rep = 3\<rparr>],
      [Symbol \<lparr>kind = KindA, val = None, min_rep = 1, max_rep = 1\<rparr>]]" "asc ''123''" 0 "[]" "[]"]
  show ?thesis using e by simp
qed

text \<open>
  The claim as stated fails where no alternative recognises a character: the group
  \<open>[[A]]\<close> on the input \<open>1\<close> returns the initial result, at position 0, which is the
  result of no alternative (the only alternative skips the digit and ends at position 1).
\<close>

theorem consumeGroup_initial_counterexample:
  "consumeGroup [[Symbol \<lparr>kind = KindA, val = None, min_rep = 1, max_rep = 1\<rparr>]] (asc ''1'') 0 [] []
     = initialBest 0
   \<and> consumeGroup [[Symbol \<lparr>kind = KindA, val = None, min_rep = 1, max_rep = 1\<rparr>]] (asc ''1'') 0 [] []
     \<notin> set (map (\<lambda>alt. consumeNodes alt (asc ''1'') 0 [] (Some []))
                [[Symbol \<lparr>kind = KindA, val = None, min_rep = 1, max_rep = 1\<rparr>]])
   \<and> pos (consumeNodes [Symbol \<lparr>kind = KindA, val = None, min_rep = 1, max_rep = 1\<rparr>] (asc ''1'') 0 [] (Some [])) = 1"
  by code_simp

section \<open>Mode selection\<close>

text \<open>All symbol nodes of a node, through the alternatives of groups.\<close>

fun symbolsOf :: "MaskNode \<Rightarrow> SymbolNode list" where
  "symbolsOf (Symbol s) = [s]"
| "symbolsOf (Group alts) = concat (map (\<lambda>alt. concat (map symbolsOf alt)) alts)"

definition containsNonDigitSymbol :: "MaskNode list \<Rightarrow> bool" where
  "containsNonDigitSymbol nodes \<longleftrightarrow> (\<exists>s \<in> set (concat (map symbolsOf nodes)). kind s \<noteq> Kind0)"

lemma hasNonDigitSymbol_iff:
  "hasNonDigitSymbol nodes \<longleftrightarrow> containsNonDigitSymbol nodes"
  "hasNonDigitSymbol_alts alts \<longleftrightarrow> (\<exists>alt \<in> set alts. containsNonDigitSymbol alt)"
  by (induction nodes and alts rule: hasNonDigitSymbol_hasNonDigitSymbol_alts.induct)
     (auto simp: containsNonDigitSymbol_def)

text \<open>
  C5. The formatter takes the manual-space branch if and only if the pattern has a
  separator, every separator is a single space, and a fragment contains a symbol that is
  not a digit symbol, at any depth of its groups; otherwise, and so for every pattern with
  no separator, it takes the contiguous branch.
\<close>

theorem manual_space_mode_iff:
  "(manualSpaceMask parsed \<longleftrightarrow>
      separators parsed \<noteq> [] \<and> (\<forall>s \<in> set (separators parsed). s = asc '' '')
      \<and> (\<exists>fragment \<in> set (fragments parsed). containsNonDigitSymbol fragment))
   \<and> (separators parsed = [] \<longrightarrow> \<not> manualSpaceMask parsed)
   \<and> format parsed v =
       (if manualSpaceMask parsed
        then (let input = inputOf v;
                  outs = fst (manual_loop (fragments parsed) (filter (\<lambda>s. s \<noteq> []) (split_spaces input [])) [] [])
              in if hasTrailingSpace input then replaceTrailingSpaces (join outs [SPACE])
                 else trimEnd (join outs [SPACE]))
        else joinWithSeparators
               (fst (contiguous_loop (fragments parsed) (inputOf v) (sepListOf (separators parsed)) 0 [] []))
               (separators parsed))"
  by (auto simp: manualSpaceMask_def separatorsAreSpaces_def list_all_iff list_ex_iff
      hasNonDigitSymbol_iff asc_def SPACE_def format_def formatValue_def Let_def split: prod.splits)

text \<open>
  The pattern \<open>A{+}: :A{+}\<close> is formatted in manual-space mode and the pattern \<open>A{+}\<close>,
  with no separator, in contiguous mode.
\<close>

theorem manual_space_mode_iff_witness:
  "parseMask (asc ''A{+}: :A{+}'') =
     Inr \<lparr>fragments = [[Symbol \<lparr>kind = KindA, val = None, min_rep = 1, max_rep = \<infinity>\<rparr>],
                         [Symbol \<lparr>kind = KindA, val = None, min_rep = 1, max_rep = \<infinity>\<rparr>]],
          separators = [asc '' '']\<rparr>
   \<and> manualSpaceMask
       \<lparr>fragments = [[Symbol \<lparr>kind = KindA, val = None, min_rep = 1, max_rep = \<infinity>\<rparr>],
                     [Symbol \<lparr>kind = KindA, val = None, min_rep = 1, max_rep = \<infinity>\<rparr>]],
        separators = [asc '' '']\<rparr>
   \<and> \<not> manualSpaceMask
       \<lparr>fragments = [[Symbol \<lparr>kind = KindA, val = None, min_rep = 1, max_rep = \<infinity>\<rparr>]],
        separators = []\<rparr>"
proof -
  have p: "parseMask (asc ''A{+}: :A{+}'') =
     Inr \<lparr>fragments = [[Symbol \<lparr>kind = KindA, val = None, min_rep = 1, max_rep = \<infinity>\<rparr>],
                         [Symbol \<lparr>kind = KindA, val = None, min_rep = 1, max_rep = \<infinity>\<rparr>]],
          separators = [asc '' '']\<rparr>"
    by code_simp
  have c: "containsNonDigitSymbol [Symbol \<lparr>kind = KindA, val = None, min_rep = 1, max_rep = \<infinity>\<rparr>]"
    by (simp add: containsNonDigitSymbol_def)
  from manual_space_mode_iff [of
      "\<lparr>fragments = [[Symbol \<lparr>kind = KindA, val = None, min_rep = 1, max_rep = \<infinity>\<rparr>],
                     [Symbol \<lparr>kind = KindA, val = None, min_rep = 1, max_rep = \<infinity>\<rparr>]],
        separators = [asc '' '']\<rparr>" Null]
    manual_space_mode_iff [of
      "\<lparr>fragments = [[Symbol \<lparr>kind = KindA, val = None, min_rep = 1, max_rep = \<infinity>\<rparr>]],
        separators = []\<rparr>" Null]
    p c
  show ?thesis by simp
qed

section \<open>The output holds only recognised characters\<close>

text \<open>The characters of \<open>input\<close> from position \<open>a\<close> up to position \<open>b\<close>.\<close>

definition segment :: "str \<Rightarrow> nat \<Rightarrow> nat \<Rightarrow> str" where
  "segment input a b = take (b - a) (drop a input)"

text \<open>A result that emits exactly what it recognised, in the order of the input.\<close>

definition faithful :: "str \<Rightarrow> nat \<Rightarrow> ConsumeResult \<Rightarrow> bool" where
  "faithful input startPos r \<longleftrightarrow>
     out r = raw r \<and> startPos \<le> pos r \<and> subseq (out r) (segment input startPos (pos r))"

lemma segment_append:
  "a \<le> b \<Longrightarrow> b \<le> c \<Longrightarrow> segment input a c = segment input a b @ segment input b c"
proof -
  assume ab: "a \<le> b" and bc: "b \<le> c"
  then have "c - a = (b - a) + (c - b)" by simp
  then have "take (c - a) (drop a input) = take (b - a) (drop a input) @ take (c - b) (drop (b - a) (drop a input))"
    by (simp only: take_add)
  with ab show ?thesis by (simp add: segment_def)
qed

lemma segment_Suc:
  "a \<le> p \<Longrightarrow> p < length input \<Longrightarrow> segment input a (Suc p) = segment input a p @ [input ! p]"
proof -
  assume ap: "a \<le> p" and lt: "p < length input"
  have "segment input p (Suc p) = [input ! p]"
    using lt by (simp add: segment_def take_Suc_conv_app_nth [where i = 0] hd_drop_conv_nth take_Suc)
  with segment_append [of a p "Suc p" input] ap show ?thesis by simp
qed

lemma subseq_segment_mono:
  "subseq xs (segment input a b) \<Longrightarrow> a \<le> b \<Longrightarrow> b \<le> c \<Longrightarrow> subseq xs (segment input a c)"
  by (simp add: segment_append [of a b c] subseq_rev_drop_many)

lemma skipSeparators_ge: "p \<le> skipSeparators input p seps"
proof (induction input p seps rule: skipSeparators.induct)
  case (1 input p seps)
  show ?case
  proof (cases "0 < separatorLengthAt input p seps")
    case True
    with "1.IH" [OF refl True] show ?thesis
      by (subst skipSeparators.simps) (simp add: Let_def)
  next
    case False
    then show ?thesis by (subst skipSeparators.simps) (simp add: Let_def)
  qed
qed

lemma consumeSymbol_loop_faithful:
  "ou = ra \<Longrightarrow> startPos \<le> p \<Longrightarrow> subseq ou (segment input startPos p) \<Longrightarrow>
     faithful input startPos (consumeSymbol_loop node input startPos seps remainingNodes ou ra p count)"
proof (induction node input startPos seps remainingNodes ou ra p count rule: consumeSymbol_loop.induct)
  case (1 node input startPos seps remainingNodes ou ra p count)
  note eq = consumeSymbol_loop.simps [of node input startPos seps remainingNodes ou ra p count]
  show ?case
  proof (cases "p < length input \<and> enat count < max_rep node")
    case False
    with "1.prems" show ?thesis
      by (subst eq) (auto simp: faithful_def)
  next
    case guard: True
    show ?thesis
    proof (cases "0 < separatorLengthAt input p seps")
      case True
      have "subseq ou (segment input startPos (p + separatorLengthAt input p seps))"
        by (rule subseq_segment_mono [of ou input startPos p]) (use "1.prems" in simp_all)
      with guard True "1.prems" show ?thesis
        by (subst eq) (simp add: faithful_def Let_def)
    next
      case nosep: False
      show ?thesis
      proof (cases "matchesNode node (input ! p)")
        case True
        have "subseq (ou @ [input ! p]) (segment input startPos (p + 1))"
          using "1.prems" guard by (simp add: segment_Suc)
        with "1.IH"(1) [OF guard refl _ refl True] nosep "1.prems"
        have "faithful input startPos
                (consumeSymbol_loop node input startPos seps remainingNodes
                   (ou @ [input ! p]) (ra @ [input ! p]) (p + 1) (count + 1))"
          by simp
        with guard nosep True show ?thesis
          by (subst eq) (simp add: Let_def)
      next
        case nomatch: False
        show ?thesis
        proof (cases "enat count \<ge> min_rep node \<and> canStartWithChar remainingNodes (input ! p)")
          case True
          with guard nosep nomatch "1.prems" show ?thesis
            by (subst eq) (simp add: faithful_def Let_def)
        next
          case False
          have "subseq ou (segment input startPos (p + 1))"
            by (rule subseq_segment_mono [of ou input startPos p]) (use "1.prems" in simp_all)
          with "1.IH"(2) [OF guard refl _ refl nomatch False] nosep "1.prems"
          have "faithful input startPos
                  (consumeSymbol_loop node input startPos seps remainingNodes ou ra (p + 1) count)"
            by simp
          with guard nosep nomatch False show ?thesis
            by (subst eq) (auto simp: Let_def)
        qed
      qed
    qed
  qed
qed

lemma consumeSymbol_faithful:
  "faithful input startPos (consumeSymbol node input startPos seps remainingNodes)"
  unfolding consumeSymbol_def
  by (rule consumeSymbol_loop_faithful) (simp_all add: segment_def)


lemma consumeGroup_loop_cases:
  "consumeGroup_loop alts input startPos seps tailNodes best = best
   \<or> (\<exists>alt \<in> set alts. consumeGroup_loop alts input startPos seps tailNodes best
         = consumeNodes_loop alt input startPos seps (Some tailNodes) [] [] startPos)"
  by (induction alts arbitrary: best) (auto simp: Let_def)

lemma consume_faithful:
  "ou = ra \<Longrightarrow> startPos \<le> p \<Longrightarrow> subseq ou (segment input startPos p) \<Longrightarrow>
     faithful input startPos (consumeNodes_loop nodes input startPos seps tailOpt ou ra p)"
  "faithful input startPos (consumeNode node input startPos seps remainingNodes)"
  "faithful input startPos best \<Longrightarrow>
     faithful input startPos (consumeGroup_loop alts input startPos seps tailNodes best)"
proof (induction nodes input startPos seps tailOpt ou ra p
         and node input startPos seps remainingNodes
         and alts input startPos seps tailNodes best
       rule: consumeNodes_loop_consumeNode_consumeGroup_loop.induct)
  case (1 input startPos seps tailNodes ou ra p)
  then show ?case by (simp add: faithful_def)
next
  case (2 node remaining input startPos seps tailNodes ou ra p)
  define p1 where "p1 = skipSeparators input p seps"
  define result where "result = consumeNode node input p1 seps (lookaheadOf remaining tailNodes)"
  have f: "faithful input p1 result"
    unfolding result_def p1_def by (rule "2.IH"(1))
  have pp1: "p \<le> p1" by (simp add: p1_def skipSeparators_ge)
  from f have p1r: "p1 \<le> pos result" and oeq: "out result = raw result"
    and sub: "subseq (out result) (segment input p1 (pos result))"
    unfolding faithful_def by blast+
  have "subseq ou (segment input startPos p1)"
    by (rule subseq_segment_mono [of ou input startPos p]) (use "2.prems" pp1 in simp_all)
  from this sub have "subseq (ou @ out result) (segment input startPos p1 @ segment input p1 (pos result))"
    by (rule list_emb_append_mono)
  moreover have "segment input startPos (pos result) = segment input startPos p1 @ segment input p1 (pos result)"
    by (rule segment_append) (use "2.prems" pp1 p1r in simp_all)
  ultimately have sub2: "subseq (ou @ out result) (segment input startPos (pos result))" by simp
  have le: "startPos \<le> pos result" using "2.prems" pp1 p1r by simp
  show ?case
  proof (cases "satisfied result")
    case False
    with sub2 le oeq "2.prems" show ?thesis
      by (simp add: Let_def result_def [symmetric] p1_def [symmetric] faithful_def)
  next
    case True
    have "faithful input startPos
            (consumeNodes_loop remaining input startPos seps tailNodes
               (ou @ out result) (ra @ raw result) (pos result))"
      by (rule "2.IH"(2) [OF result_def [unfolded p1_def]])
         (use True sub2 le oeq "2.prems" in simp_all)
    with True show ?thesis
      by (simp add: Let_def result_def [symmetric] p1_def [symmetric])
  qed
next
  case (3 node input startPos seps remainingNodes)
  show ?case by (simp add: consumeSymbol_faithful)
next
  case (4 alts input startPos seps remainingNodes)
  show ?case
    by (simp, rule "4.IH") (simp add: faithful_def segment_def)
next
  case (5 input startPos seps tailNodes best)
  then show ?case by simp
next
  case (6 alt alts input startPos seps tailNodes best)
  define result where "result = consumeNodes_loop alt input startPos seps (Some tailNodes) [] [] startPos"
  have fr: "faithful input startPos result"
    unfolding result_def by (rule "6.IH"(1)) (simp_all add: segment_def)
  have "faithful input startPos (if better result best then result else best)"
    using fr "6.prems" by simp
  from "6.IH"(2) [OF result_def this] show ?case
    by (simp add: Let_def result_def [symmetric])
qed


lemma consumeNodes_faithful:
  "faithful input startPos (consumeNodes nodes input startPos seps tailOpt)"
  unfolding consumeNodes_def by (rule consume_faithful(1)) (simp_all add: segment_def)

lemma consumeGroup_faithful:
  "faithful input startPos (consumeGroup alts input startPos seps tailNodes)"
  unfolding consumeGroup_def by (rule consume_faithful(3)) (simp add: faithful_def segment_def)

lemma set_segment: "set (segment input a b) \<subseteq> set input"
  unfolding segment_def using set_take_subset set_drop_subset by fast

lemma faithful_set: "faithful input startPos r \<Longrightarrow> set (out r) \<subseteq> set input"
proof -
  assume "faithful input startPos r"
  then have "subseq (out r) (segment input startPos (pos r))" unfolding faithful_def by blast
  then have "set (out r) \<subseteq> set (segment input startPos (pos r))"
    by (auto elim: list_emb_set)
  with set_segment [of input startPos "pos r"] show ?thesis by blast
qed


lemma contiguous_loop_set:
  "\<forall>x \<in> set outs. set x \<subseteq> set input \<Longrightarrow>
     \<forall>x \<in> set (fst (contiguous_loop frags input sepList p outs raws)). set x \<subseteq> set input"
proof (induction frags arbitrary: p outs raws)
  case Nil
  then show ?case by simp
next
  case (Cons fragmentNodes rest)
  define result where "result = consumeNodes fragmentNodes input p sepList (nextFragment rest)"
  have "set (out result) \<subseteq> set input"
    unfolding result_def by (rule faithful_set [OF consumeNodes_faithful])
  with Cons.prems have acc: "\<forall>x \<in> set (outs @ [out result]). set x \<subseteq> set input" by simp
  show ?case
  proof (cases "satisfied result")
    case True
    with Cons.IH [OF acc] show ?thesis
      by (simp add: Let_def result_def [symmetric])
  next
    case False
    with acc show ?thesis
      by (simp add: Let_def result_def [symmetric])
  qed
qed

lemma joinWithSeparators_set:
  "set (joinWithSeparators outs seps) \<subseteq> \<Union> (set ` set outs) \<union> \<Union> (set ` set seps)"
proof (induction outs arbitrary: seps)
  case Nil
  show ?case by simp
next
  case (Cons part rest)
  have tl: "\<Union> (set ` set (tl seps)) \<subseteq> \<Union> (set ` set seps)"
    by (cases seps) auto
  have mid: "set (case seps of [] \<Rightarrow> []
               | sep # _ \<Rightarrow> (case rest of [] \<Rightarrow> [] | nextPart # _ \<Rightarrow> if nextPart \<noteq> [] then sep else []))
             \<subseteq> \<Union> (set ` set seps)"
    by (auto split: list.splits)
  from Cons.IH [of "tl seps"] tl mid show ?case
    by (simp del: set_concat) blast
qed

lemma split_spaces_set:
  "\<forall>part \<in> set (split_spaces s current). set part \<subseteq> set current \<union> set s"
proof (induction s current rule: split_spaces.induct)
  case (1 current)
  show ?case by simp
next
  case (2 c cs current)
  show ?case
  proof (cases "is_space c")
    case True
    have "set (dropWhile is_space cs) \<subseteq> set cs" by (rule set_dropWhileD [THEN subsetI])
    with "2.IH"(1) [OF True] True show ?thesis by auto
  next
    case False
    with "2.IH"(2) [OF False] show ?thesis by auto
  qed
qed

lemma manual_loop_set:
  "\<forall>x \<in> set outs. set x \<subseteq> A \<Longrightarrow> \<forall>part \<in> set parts. set part \<subseteq> A \<Longrightarrow>
     \<forall>x \<in> set (fst (manual_loop frags parts outs raws)). set x \<subseteq> A"
proof (induction frags arbitrary: parts outs raws)
  case Nil
  then show ?case by simp
next
  case (Cons fragmentNodes rest)
  define valuePart where "valuePart = (case parts of [] \<Rightarrow> [] | part # _ \<Rightarrow> part)"
  define result where "result = consumeNodes fragmentNodes valuePart 0 [] None"
  have vp: "set valuePart \<subseteq> A"
    using Cons.prems(2) by (cases parts) (simp_all add: valuePart_def)
  have "set (out result) \<subseteq> set valuePart"
    unfolding result_def by (rule faithful_set [OF consumeNodes_faithful])
  with vp Cons.prems(1) have acc: "\<forall>x \<in> set (outs @ [out result]). set x \<subseteq> A" by auto
  have tlp: "\<forall>part \<in> set (tl parts). set part \<subseteq> A"
    using Cons.prems(2) by (cases parts) simp_all
  show ?case
  proof (cases "satisfied result")
    case True
    with Cons.IH [OF acc tlp] show ?thesis
      by (simp add: Let_def result_def [symmetric] valuePart_def [symmetric])
  next
    case False
    with acc show ?thesis
      by (simp add: Let_def result_def [symmetric] valuePart_def [symmetric])
  qed
qed

lemma join_set: "set (join xs sep) \<subseteq> \<Union> (set ` set xs) \<union> set sep"
  by (induction xs sep rule: join.induct) auto

lemma trimEnd_set: "set (trimEnd s) \<subseteq> set s"
  unfolding trimEnd_def using set_dropWhileD [of _ is_space "rev s"] by auto

lemma replaceTrailingSpaces_set: "set (replaceTrailingSpaces s) \<subseteq> set s \<union> {SPACE}"
  using trimEnd_set [of s] by (auto simp: replaceTrailingSpaces_def)

lemma format_set:
  "set (format parsed v) \<subseteq> set (inputOf v) \<union> \<Union> (set ` set (separators parsed))"
proof (cases "manualSpaceMask parsed")
  case True
  define input where "input = inputOf v"
  define parts where "parts = filter (\<lambda>s. s \<noteq> []) (split_spaces input [])"
  define outs where "outs = fst (manual_loop (fragments parsed) parts [] [])"
  have "\<forall>part \<in> set parts. set part \<subseteq> set input"
    using split_spaces_set [of input "[]"] by (simp add: parts_def)
  then have "\<forall>x \<in> set outs. set x \<subseteq> set input"
    unfolding outs_def by (intro manual_loop_set) simp_all
  with join_set [of outs "[SPACE]"] have j: "set (join outs [SPACE]) \<subseteq> set input \<union> {SPACE}"
    by auto
  from True have "separators parsed \<noteq> []" and "\<forall>s \<in> set (separators parsed). s = [SPACE]"
    by (auto simp: manualSpaceMask_def separatorsAreSpaces_def list_all_iff)
  then have sp: "SPACE \<in> \<Union> (set ` set (separators parsed))"
    by (cases "separators parsed") auto
  have m: "format parsed v = (if hasTrailingSpace input then replaceTrailingSpaces (join outs [SPACE])
                               else trimEnd (join outs [SPACE]))"
    using True
    by (simp add: format_def formatValue_def Let_def input_def outs_def parts_def split: prod.splits)
  from j sp trimEnd_set [of "join outs [SPACE]"] replaceTrailingSpaces_set [of "join outs [SPACE]"]
  show ?thesis unfolding m input_def [symmetric] by (cases "hasTrailingSpace input") auto
next
  case False
  define input where "input = inputOf v"
  define outs where "outs = fst (contiguous_loop (fragments parsed) input (sepListOf (separators parsed)) 0 [] [])"
  have o: "\<forall>x \<in> set outs. set x \<subseteq> set input"
    unfolding outs_def by (rule contiguous_loop_set) simp
  have m: "format parsed v = joinWithSeparators outs (separators parsed)"
    using False
    by (simp add: format_def formatValue_def Let_def input_def outs_def split: prod.splits)
  from o joinWithSeparators_set [of outs "separators parsed"]
  show ?thesis unfolding m input_def [symmetric] by blast
qed

text \<open>
  C9. Every consumption of a node, a symbol or a group, emits exactly the raw characters it
  recognised, and these are characters of the input between the start position and the
  position returned, in the order of the input. So every character of the masked string is
  a character of the raw input or of a separator of the pattern (the single space with
  which the manual-space mode joins is the separator of such a pattern): the character of a
  literal node that is absent from the input is never put into the output.
\<close>

theorem output_is_recognised_input:
  "out (consumeNode node input startPos seps remainingNodes)
     = raw (consumeNode node input startPos seps remainingNodes)
   \<and> subseq (raw (consumeNode node input startPos seps remainingNodes))
        (segment input startPos (pos (consumeNode node input startPos seps remainingNodes)))
   \<and> out (consumeSymbol symbolNode input startPos seps remainingNodes)
     = raw (consumeSymbol symbolNode input startPos seps remainingNodes)
   \<and> out (consumeGroup alts input startPos seps remainingNodes)
     = raw (consumeGroup alts input startPos seps remainingNodes)
   \<and> set (format parsed v) \<subseteq> set (inputOf v) \<union> \<Union> (set ` set (separators parsed))"
  using consume_faithful(2) [of input startPos node seps remainingNodes]
    consumeSymbol_faithful [of input startPos symbolNode seps remainingNodes]
    consumeGroup_faithful [of input startPos alts seps remainingNodes]
    format_set [of parsed v]
  unfolding faithful_def by metis

text \<open>
  The pattern \<open>0{3}-0{2}\<close> has no separator and the literal \<open>-\<close>; on the input \<open>12345\<close> the
  output is \<open>123\<close>, without the literal.
\<close>

theorem output_is_recognised_input_witness:
  "parseMask (asc ''0{3}-0{2}'') =
     Inr \<lparr>fragments = [[Symbol \<lparr>kind = Kind0, val = None, min_rep = 3, max_rep = 3\<rparr>,
                          Symbol \<lparr>kind = Literal, val = Some 45, min_rep = 1, max_rep = 1\<rparr>,
                          Symbol \<lparr>kind = Kind0, val = None, min_rep = 2, max_rep = 2\<rparr>]],
          separators = []\<rparr>
   \<and> format \<lparr>fragments = [[Symbol \<lparr>kind = Kind0, val = None, min_rep = 3, max_rep = 3\<rparr>,
                          Symbol \<lparr>kind = Literal, val = Some 45, min_rep = 1, max_rep = 1\<rparr>,
                          Symbol \<lparr>kind = Kind0, val = None, min_rep = 2, max_rep = 2\<rparr>]],
          separators = []\<rparr> (Value (asc ''12345'')) = asc ''123''
   \<and> set (format \<lparr>fragments = [[Symbol \<lparr>kind = Kind0, val = None, min_rep = 3, max_rep = 3\<rparr>,
                          Symbol \<lparr>kind = Literal, val = Some 45, min_rep = 1, max_rep = 1\<rparr>,
                          Symbol \<lparr>kind = Kind0, val = None, min_rep = 2, max_rep = 2\<rparr>]],
          separators = []\<rparr> (Value (asc ''12345''))) \<subseteq> set (asc ''12345'')"
proof -
  have a: "parseMask (asc ''0{3}-0{2}'') =
     Inr \<lparr>fragments = [[Symbol \<lparr>kind = Kind0, val = None, min_rep = 3, max_rep = 3\<rparr>,
                          Symbol \<lparr>kind = Literal, val = Some 45, min_rep = 1, max_rep = 1\<rparr>,
                          Symbol \<lparr>kind = Kind0, val = None, min_rep = 2, max_rep = 2\<rparr>]],
          separators = []\<rparr>"
    by code_simp
  have b: "format \<lparr>fragments = [[Symbol \<lparr>kind = Kind0, val = None, min_rep = 3, max_rep = 3\<rparr>,
                          Symbol \<lparr>kind = Literal, val = Some 45, min_rep = 1, max_rep = 1\<rparr>,
                          Symbol \<lparr>kind = Kind0, val = None, min_rep = 2, max_rep = 2\<rparr>]],
          separators = []\<rparr> (Value (asc ''12345'')) = asc ''123''"
    by code_simp
  from output_is_recognised_input [of _ _ _ _ _ _ _
      "\<lparr>fragments = [[Symbol \<lparr>kind = Kind0, val = None, min_rep = 3, max_rep = 3\<rparr>,
                          Symbol \<lparr>kind = Literal, val = Some 45, min_rep = 1, max_rep = 1\<rparr>,
                          Symbol \<lparr>kind = Kind0, val = None, min_rep = 2, max_rep = 2\<rparr>]],
          separators = []\<rparr>" "Value (asc ''12345'')"]
  have "set (format \<lparr>fragments = [[Symbol \<lparr>kind = Kind0, val = None, min_rep = 3, max_rep = 3\<rparr>,
                          Symbol \<lparr>kind = Literal, val = Some 45, min_rep = 1, max_rep = 1\<rparr>,
                          Symbol \<lparr>kind = Kind0, val = None, min_rep = 2, max_rep = 2\<rparr>]],
          separators = []\<rparr> (Value (asc ''12345''))) \<subseteq> set (asc ''12345'')"
    by (simp add: inputOf_def)
  with a b show ?thesis by blast
qed

section \<open>Trailing white space in manual-space mode\<close>

text \<open>A string that ends in exactly one space, with no white space before it.\<close>

definition oneTrailingSpace :: "str \<Rightarrow> bool" where
  "oneTrailingSpace s \<longleftrightarrow> s \<noteq> [] \<and> last s = SPACE \<and> \<not> hasTrailingSpace (butlast s)"

lemma is_space_SPACE: "is_space SPACE"
  by (simp add: is_space_def SPACE_def)

lemma trimEnd_no_trailing: "\<not> hasTrailingSpace (trimEnd s)"
proof -
  have "dropWhile is_space (rev s) \<noteq> [] \<Longrightarrow> \<not> is_space (hd (dropWhile is_space (rev s)))"
    by (rule hd_dropWhile)
  then show ?thesis
    by (auto simp: hasTrailingSpace_def trimEnd_def last_rev)
qed

lemma trimEnd_id: "\<not> hasTrailingSpace s \<Longrightarrow> trimEnd s = s"
proof -
  assume a: "\<not> hasTrailingSpace s"
  have "dropWhile is_space (rev s) = rev s"
  proof (cases "rev s")
    case Nil
    then show ?thesis by simp
  next
    case (Cons x xs)
    then have "last s = x" by (metis last_rev list.sel(1) rev_rev_ident)
    with a Cons have "\<not> is_space x" by (auto simp: hasTrailingSpace_def)
    with Cons show ?thesis by simp
  qed
  then show ?thesis by (simp add: trimEnd_def)
qed

lemma replaceTrailingSpaces_one:
  "hasTrailingSpace s \<Longrightarrow> oneTrailingSpace (replaceTrailingSpaces s)"
  by (simp add: replaceTrailingSpaces_def oneTrailingSpace_def trimEnd_no_trailing)

lemma split_spaces_no_space:
  "\<forall>c \<in> set current. \<not> is_space c \<Longrightarrow>
     \<forall>part \<in> set (split_spaces s current). \<forall>c \<in> set part. \<not> is_space c"
proof (induction s current rule: split_spaces.induct)
  case (1 current)
  then show ?case by simp
next
  case (2 c cs current)
  show ?case
  proof (cases "is_space c")
    case True
    with "2.IH"(1) [OF True] "2.prems" show ?thesis by simp
  next
    case False
    with "2.IH"(2) [OF False] "2.prems" show ?thesis by simp
  qed
qed

lemma join_last:
  "\<forall>x \<in> set xs. \<forall>c \<in> set x. \<not> is_space c \<Longrightarrow>
     hasTrailingSpace (join xs [SPACE]) \<longleftrightarrow> 2 \<le> length xs \<and> last xs = []"
proof (induction xs "[SPACE]" rule: join.induct)
  case 1
  show ?case by (simp add: hasTrailingSpace_def)
next
  case (2 x)
  then show ?case by (auto simp: hasTrailingSpace_def)
next
  case (3 x y ys)
  then have ih: "hasTrailingSpace (join (y # ys) [SPACE]) \<longleftrightarrow> 2 \<le> length (y # ys) \<and> last (y # ys) = []"
    by simp
  show ?case
  proof (cases "join (y # ys) [SPACE] = []")
    case True
    then have "ys = [] \<and> y = []" by (cases ys) auto
    then show ?thesis by (simp add: hasTrailingSpace_def is_space_SPACE)
  next
    case False
    then have "hasTrailingSpace (join (x # y # ys) [SPACE]) \<longleftrightarrow> hasTrailingSpace (join (y # ys) [SPACE])"
      by (simp add: hasTrailingSpace_def)
    moreover have "ys = [] \<Longrightarrow> y \<noteq> []" using False by auto
    moreover have "ys = [] \<Longrightarrow> \<not> hasTrailingSpace y"
      using "3.prems" by (auto simp: hasTrailingSpace_def)
    ultimately show ?thesis using ih by (cases ys) auto
  qed
qed


text \<open>\<open>fragmentsOut\<close> at the end of the loop of the manual-space branch.\<close>

definition manualOutputs :: "ParsedMask \<Rightarrow> str \<Rightarrow> str list" where
  "manualOutputs parsed input =
     fst (manual_loop (fragments parsed) (filter (\<lambda>s. s \<noteq> []) (split_spaces input [])) [] [])"

lemma manualOutputs_no_space:
  "\<forall>x \<in> set (manualOutputs parsed input). \<forall>c \<in> set x. \<not> is_space c"
proof -
  have "\<forall>part \<in> set (filter (\<lambda>s. s \<noteq> []) (split_spaces input [])). set part \<subseteq> {c. \<not> is_space c}"
    using split_spaces_no_space [of "[]" input] by auto
  then have "\<forall>x \<in> set (manualOutputs parsed input). set x \<subseteq> {c. \<not> is_space c}"
    unfolding manualOutputs_def by (intro manual_loop_set) simp_all
  then show ?thesis by blast
qed

lemma format_manual:
  "manualSpaceMask parsed \<Longrightarrow>
     format parsed v =
       (if hasTrailingSpace (inputOf v)
        then replaceTrailingSpaces (join (manualOutputs parsed (inputOf v)) [SPACE])
        else trimEnd (join (manualOutputs parsed (inputOf v)) [SPACE]))"
  by (simp add: format_def formatValue_def manualOutputs_def Let_def split: prod.splits)

text \<open>
  C6, as amended. In manual-space mode, for every raw value: if the raw value ends in white
  space, the white space that ends the joined outputs of the fragments is replaced by one
  space, so the masked output ends in exactly one space when the last fragment tried
  produced no output and is not the first fragment, and otherwise it is the joined outputs
  unchanged, which end in no white space; if the raw value does not end in white space,
  all trailing white space is trimmed from the masked output.
\<close>

theorem manual_mode_trailing_space:
  assumes "manualSpaceMask parsed"
  shows "(hasTrailingSpace (inputOf v) \<longrightarrow>
            (if 2 \<le> length (manualOutputs parsed (inputOf v)) \<and> last (manualOutputs parsed (inputOf v)) = []
             then oneTrailingSpace (format parsed v)
             else format parsed v = join (manualOutputs parsed (inputOf v)) [SPACE]
                  \<and> \<not> hasTrailingSpace (format parsed v)))
         \<and> (\<not> hasTrailingSpace (inputOf v) \<longrightarrow>
              format parsed v = trimEnd (join (manualOutputs parsed (inputOf v)) [SPACE])
              \<and> \<not> hasTrailingSpace (format parsed v))"
proof -
  let ?joined = "join (manualOutputs parsed (inputOf v)) [SPACE]"
  note jl = join_last [OF manualOutputs_no_space, of parsed "inputOf v"]
  note fm = format_manual [OF assms, of v]
  show ?thesis
  proof (cases "hasTrailingSpace (inputOf v)")
    case False
    with fm trimEnd_no_trailing [of ?joined] show ?thesis by simp
  next
    case True
    then have f: "format parsed v = replaceTrailingSpaces ?joined" using fm by simp
    show ?thesis
    proof (cases "hasTrailingSpace ?joined")
      case j: True
      with replaceTrailingSpaces_one [of ?joined] f jl True show ?thesis by simp
    next
      case j: False
      then have "replaceTrailingSpaces ?joined = ?joined" by (simp add: replaceTrailingSpaces_def)
      with f have f': "format parsed v = ?joined" by simp
      from j jl have "\<not> (2 \<le> length (manualOutputs parsed (inputOf v))
          \<and> last (manualOutputs parsed (inputOf v)) = [])" by simp
      with f' j True show ?thesis by auto
    qed
  qed
qed

text \<open>
  The pattern \<open>A{+}: :A{+}\<close>: the input \<open>John\<close> followed by two spaces gives the outputs
  \<open>John\<close> and the empty string and a masked output that ends in one space; the input
  \<open>John Smith\<close> gives a masked output with no trailing white space.
\<close>

theorem manual_mode_trailing_space_witness:
  "manualSpaceMask \<lparr>fragments = [[Symbol \<lparr>kind = KindA, val = None, min_rep = 1, max_rep = \<infinity>\<rparr>],
                     [Symbol \<lparr>kind = KindA, val = None, min_rep = 1, max_rep = \<infinity>\<rparr>]],
        separators = [asc '' '']\<rparr>
   \<and> hasTrailingSpace (inputOf (Value (asc ''John  '')))
   \<and> manualOutputs \<lparr>fragments = [[Symbol \<lparr>kind = KindA, val = None, min_rep = 1, max_rep = \<infinity>\<rparr>],
                     [Symbol \<lparr>kind = KindA, val = None, min_rep = 1, max_rep = \<infinity>\<rparr>]],
        separators = [asc '' '']\<rparr> (inputOf (Value (asc ''John  ''))) = [asc ''John'', []]
   \<and> oneTrailingSpace (format \<lparr>fragments = [[Symbol \<lparr>kind = KindA, val = None, min_rep = 1, max_rep = \<infinity>\<rparr>],
                     [Symbol \<lparr>kind = KindA, val = None, min_rep = 1, max_rep = \<infinity>\<rparr>]],
        separators = [asc '' '']\<rparr> (Value (asc ''John  '')))
   \<and> \<not> hasTrailingSpace (inputOf (Value (asc ''John Smith'')))
   \<and> \<not> hasTrailingSpace (format \<lparr>fragments = [[Symbol \<lparr>kind = KindA, val = None, min_rep = 1, max_rep = \<infinity>\<rparr>],
                     [Symbol \<lparr>kind = KindA, val = None, min_rep = 1, max_rep = \<infinity>\<rparr>]],
        separators = [asc '' '']\<rparr> (Value (asc ''John Smith'')))"
proof -
  let ?p = "\<lparr>fragments = [[Symbol \<lparr>kind = KindA, val = None, min_rep = 1, max_rep = \<infinity>\<rparr>],
                     [Symbol \<lparr>kind = KindA, val = None, min_rep = 1, max_rep = \<infinity>\<rparr>]],
        separators = [asc '' '']\<rparr>"
  have m: "manualSpaceMask ?p" by code_simp
  have t: "hasTrailingSpace (inputOf (Value (asc ''John  '')))" by code_simp
  have o: "manualOutputs ?p (inputOf (Value (asc ''John  ''))) = [asc ''John'', []]" by code_simp
  have n: "\<not> hasTrailingSpace (inputOf (Value (asc ''John Smith'')))" by code_simp
  from manual_mode_trailing_space [OF m, of "Value (asc ''John  '')"] t o
  have a: "oneTrailingSpace (format ?p (Value (asc ''John  '')))" by simp
  from manual_mode_trailing_space [OF m, of "Value (asc ''John Smith'')"] n
  have b: "\<not> hasTrailingSpace (format ?p (Value (asc ''John Smith'')))" by blast
  from m t o n a b show ?thesis by blast
qed

text \<open>
  The claim as stated fails where the last fragment produced output: for the pattern
  \<open>A{+}: :A{+}\<close> the input \<open>John Smith\<close> followed by a space ends in white space, and the
  masked output is \<open>John Smith\<close>, with no trailing space.
\<close>

theorem trailing_space_counterexample:
  "manualSpaceMask \<lparr>fragments = [[Symbol \<lparr>kind = KindA, val = None, min_rep = 1, max_rep = \<infinity>\<rparr>],
                     [Symbol \<lparr>kind = KindA, val = None, min_rep = 1, max_rep = \<infinity>\<rparr>]],
        separators = [asc '' '']\<rparr>
   \<and> hasTrailingSpace (inputOf (Value (asc ''John Smith '')))
   \<and> format \<lparr>fragments = [[Symbol \<lparr>kind = KindA, val = None, min_rep = 1, max_rep = \<infinity>\<rparr>],
                     [Symbol \<lparr>kind = KindA, val = None, min_rep = 1, max_rep = \<infinity>\<rparr>]],
        separators = [asc '' '']\<rparr> (Value (asc ''John Smith '')) = asc ''John Smith''
   \<and> \<not> oneTrailingSpace (format \<lparr>fragments = [[Symbol \<lparr>kind = KindA, val = None, min_rep = 1, max_rep = \<infinity>\<rparr>],
                     [Symbol \<lparr>kind = KindA, val = None, min_rep = 1, max_rep = \<infinity>\<rparr>]],
        separators = [asc '' '']\<rparr> (Value (asc ''John Smith '')))"
  by code_simp

section \<open>Quantifier parsing\<close>

text \<open>The decimal numeral of a natural number, with no leading zero.\<close>

definition digit :: "nat \<Rightarrow> cu" where
  "digit d = of_nat (48 + d)"

fun decimal :: "nat \<Rightarrow> str" where
  "decimal n = (if n < 10 then [digit n] else decimal (n div 10) @ [digit (n mod 10)])"

declare decimal.simps [simp del]

lemma unat_digit: "d < 10 \<Longrightarrow> unat (digit d) = 48 + d"
  by (simp only: digit_def unat_of_nat) simp

lemma DIGIT_RE_digit: "d < 10 \<Longrightarrow> DIGIT_RE (digit d)"
  by (simp add: DIGIT_RE_def word_le_nat_alt unat_digit)

lemma digit_unat: "DIGIT_RE c \<Longrightarrow> digit (unat c - 48) = c"
proof -
  assume "DIGIT_RE c"
  then have "48 \<le> unat c" by (simp add: DIGIT_RE_def word_le_nat_alt)
  then have "48 + (unat c - 48) = unat c" by simp
  then show ?thesis by (simp add: digit_def)
qed

lemma DIGIT_RE_value: "DIGIT_RE c \<Longrightarrow> unat c - 48 < 10"
  by (simp add: DIGIT_RE_def word_le_nat_alt) arith

lemma digitsValue_snoc: "digitsValue (xs @ [c]) = 10 * digitsValue xs + (unat c - 48)"
  by (simp add: digitsValue_def)

lemma digitsValue_decimal: "digitsValue (decimal n) = n"
proof (induction n rule: decimal.induct)
  case (1 n)
  show ?case
  proof (cases "n < 10")
    case True
    then show ?thesis by (subst decimal.simps) (simp add: digitsValue_def unat_digit)
  next
    case False
    with "1.IH" have "digitsValue (decimal (n div 10)) = n div 10" by simp
    with False show ?thesis
      by (subst decimal.simps) (simp add: digitsValue_snoc unat_digit)
  qed
qed

lemma decimal_shape:
  "decimal n \<noteq> [] \<and> list_all DIGIT_RE (decimal n) \<and> (1 \<le> n \<longrightarrow> 49 \<le> hd (decimal n))"
proof (induction n rule: decimal.induct)
  case (1 n)
  show ?case
  proof (cases "n < 10")
    case True
    then have "1 \<le> n \<longrightarrow> 49 \<le> digit n" by (simp add: word_le_nat_alt unat_digit)
    with True show ?thesis by (subst (1 2 3) decimal.simps) (simp add: DIGIT_RE_digit)
  next
    case False
    with "1.IH" have ih: "decimal (n div 10) \<noteq> []" "list_all DIGIT_RE (decimal (n div 10))"
      "49 \<le> hd (decimal (n div 10))" by simp_all
    with False show ?thesis by (subst (1 2 3) decimal.simps) (simp add: DIGIT_RE_digit)
  qed
qed

lemma positive_integer_re_iff:
  "positive_integer_re body \<longleftrightarrow> body \<noteq> [] \<and> 49 \<le> hd body \<and> list_all DIGIT_RE body"
  by (cases body) (auto simp: positive_integer_re_def DIGIT_RE_def word_le_nat_alt)

lemma positive_integer_re_decimal: "1 \<le> n \<Longrightarrow> positive_integer_re (decimal n)"
  using decimal_shape [of n] by (simp add: positive_integer_re_iff)

lemma decimal_digitsValue:
  "body \<noteq> [] \<Longrightarrow> 49 \<le> hd body \<Longrightarrow> list_all DIGIT_RE body \<Longrightarrow>
     1 \<le> digitsValue body \<and> decimal (digitsValue body) = body"
proof (induction body rule: rev_nonempty_induct)
  case (single c)
  then have d: "DIGIT_RE c" and "49 \<le> unat c" by (simp_all add: word_le_nat_alt)
  with DIGIT_RE_value [OF d] have "1 \<le> unat c - 48" "unat c - 48 < 10" by simp_all
  with digit_unat [OF d] show ?case
    by (subst decimal.simps) (simp add: digitsValue_def)
next
  case (snoc c cs)
  from snoc.prems snoc.hyps have "49 \<le> hd cs" "list_all DIGIT_RE cs" and d: "DIGIT_RE c" by simp_all
  with snoc.IH have ih: "1 \<le> digitsValue cs" "decimal (digitsValue cs) = cs" by simp_all
  let ?n = "10 * digitsValue cs + (unat c - 48)"
  from ih(1) have big: "\<not> ?n < 10" by simp
  from DIGIT_RE_value [OF d] have "?n div 10 = digitsValue cs" "?n mod 10 = unat c - 48" by simp_all
  with big ih(2) digit_unat [OF d] have "decimal ?n = cs @ [c]"
    by (subst decimal.simps) simp
  with ih(1) show ?case by (simp add: digitsValue_snoc)
qed

lemma positive_integer_re_decimal_iff:
  "positive_integer_re body \<longleftrightarrow> (\<exists>n. 1 \<le> n \<and> body = decimal n)"
proof
  assume "positive_integer_re body"
  with decimal_digitsValue [of body] have "1 \<le> digitsValue body \<and> body = decimal (digitsValue body)"
    by (simp add: positive_integer_re_iff)
  then show "\<exists>n. 1 \<le> n \<and> body = decimal n" by blast
next
  assume "\<exists>n. 1 \<le> n \<and> body = decimal n"
  then show "positive_integer_re body" by (auto intro: positive_integer_re_decimal)
qed


text \<open>
  The doubles: exact up to \<open>2^53\<close>, never below 1 on a positive integer, and \<open>Infinity\<close>
  from \<open>2^1024\<close> on.
\<close>

lemma bitLength_le: "n < 2 ^ k \<Longrightarrow> bitLength n \<le> k"
proof (induction n arbitrary: k rule: bitLength.induct)
  case (1 n)
  show ?case
  proof (cases "n = 0")
    case True
    then show ?thesis by (simp add: bitLength.simps)
  next
    case False
    with "1.prems" obtain j where k: "k = Suc j" by (cases k) auto
    with "1.prems" have "n div 2 < 2 ^ j" by auto
    with "1.IH" [OF False] have "bitLength (n div 2) \<le> j" .
    with False k show ?thesis by (subst bitLength.simps) simp
  qed
qed

lemma bitLength_lower: "0 < n \<Longrightarrow> 2 ^ (bitLength n - 1) \<le> n"
proof (induction n rule: bitLength.induct)
  case (1 n)
  then have nz: "n \<noteq> 0" by simp
  show ?case
  proof (cases "n div 2 = 0")
    case True
    with nz have "bitLength n = 1" by (simp add: bitLength.simps [of n] bitLength.simps [of 0])
    with "1.prems" show ?thesis by simp
  next
    case False
    with "1.IH" [OF nz] have ih: "2 ^ (bitLength (n div 2) - 1) \<le> n div 2" by simp
    from False have "0 < bitLength (n div 2)" by (subst bitLength.simps) simp
    then have "bitLength n - 1 = Suc (bitLength (n div 2) - 1)"
      using nz by (subst bitLength.simps) simp
    with ih show ?thesis by simp
  qed
qed

lemma bitLength_power: "bitLength (2 ^ k) = Suc k"
proof (induction k)
  case 0
  show ?case by (simp add: bitLength.simps [of "Suc 0"] bitLength.simps [of 0])
next
  case (Suc k)
  have "bitLength (2 ^ Suc k) = Suc (bitLength (2 ^ Suc k div 2))"
    by (subst bitLength.simps) simp
  with Suc show ?case by simp
qed

lemma toDouble_exact: "n \<le> 2 ^ 53 \<Longrightarrow> toDouble n = enat n"
proof (cases "n < 2 ^ 53")
  case True
  then have "bitLength n \<le> 53" by (rule bitLength_le)
  then show ?thesis by (simp add: toDouble_def)
next
  case False
  assume "n \<le> 2 ^ 53"
  with False have n: "n = 2 ^ 53" by simp
  have "bitLength n = 54" unfolding n by (simp only: bitLength_power)
  then show ?thesis by (simp add: toDouble_def Let_def n DOUBLE_OVERFLOW_def)
qed

lemma toDouble_positive: "1 \<le> n \<Longrightarrow> 1 \<le> toDouble n"
proof (cases "bitLength n \<le> 53")
  case True
  assume "1 \<le> n"
  with True show ?thesis by (simp add: toDouble_def one_enat_def)
next
  case False
  assume n: "1 \<le> n"
  define e where "e = bitLength n - 53"
  define q where "q = n div 2 ^ e"
  define rounded where "rounded = (if 2 * (n mod 2 ^ e) > 2 ^ e \<or> (2 * (n mod 2 ^ e) = 2 ^ e \<and> odd q) then q + 1 else q)"
  from n bitLength_lower [of n] have low: "2 ^ (bitLength n - 1) \<le> n" by simp
  have "(2::nat) ^ e \<le> 2 ^ (bitLength n - 1)"
    unfolding e_def by (rule power_increasing) simp_all
  from this low have "2 ^ e \<le> n" by (rule order_trans)
  then have "1 \<le> q" unfolding q_def by (simp add: div_greater_zero_iff Suc_le_eq)
  then have "1 \<le> rounded" by (simp add: rounded_def)
  then have "1 \<le> rounded * 2 ^ e" by simp
  then have "1 \<le> (if rounded * 2 ^ e \<ge> DOUBLE_OVERFLOW then \<infinity> else enat (rounded * 2 ^ e))"
    by (simp add: one_enat_def)
  moreover have "toDouble n = (if rounded * 2 ^ e \<ge> DOUBLE_OVERFLOW then \<infinity> else enat (rounded * 2 ^ e))"
    by (simp only: toDouble_def Let_def e_def q_def rounded_def False if_False)
  ultimately show ?thesis by simp
qed


lemma bitLength_upper: "n < 2 ^ bitLength n"
proof (induction n rule: bitLength.induct)
  case (1 n)
  show ?case
  proof (cases "n = 0")
    case True
    then show ?thesis by simp
  next
    case False
    with "1.IH" have "n div 2 < 2 ^ bitLength (n div 2)" by simp
    then have "n < 2 * 2 ^ bitLength (n div 2)" by simp
    with False show ?thesis by (subst bitLength.simps) simp
  qed
qed

lemma bitLength_gt: "2 ^ k \<le> n \<Longrightarrow> k < bitLength n"
proof -
  assume "2 ^ k \<le> n"
  from this bitLength_upper [of n] have "(2::nat) ^ k < 2 ^ bitLength n" by (rule le_less_trans)
  then show ?thesis by (rule power_less_imp_less_exp [rotated]) simp
qed

lemma toDouble_overflow: "DOUBLE_OVERFLOW \<le> n \<Longrightarrow> toDouble n = \<infinity>"
proof -
  assume big: "DOUBLE_OVERFLOW \<le> n"
  define e where "e = bitLength n - 53"
  define q where "q = n div 2 ^ e"
  define rounded where "rounded = (if 2 * (n mod 2 ^ e) > 2 ^ e \<or> (2 * (n mod 2 ^ e) = 2 ^ e \<and> odd q) then q + 1 else q)"
  from big have bl: "1024 < bitLength n"
    unfolding DOUBLE_OVERFLOW_def by (rule bitLength_gt)
  then have long: "\<not> bitLength n \<le> 53" by simp
  have "n \<noteq> 0"
  proof
    assume "n = 0"
    then have "bitLength n = 0" by (simp add: bitLength.simps)
    with bl show False by simp
  qed
  with bitLength_lower [of n] have low: "2 ^ (bitLength n - 1) \<le> n" by simp
  from bl have split: "bitLength n - 1 = 52 + e" by (simp add: e_def)
  have "(2::nat) ^ 52 * 2 ^ e \<le> n" using low by (simp only: split power_add)
  then have "2 ^ 52 \<le> q" unfolding q_def by (simp only: less_eq_div_iff_mult_less_eq zero_less_power zero_less_numeral)
  moreover have "q \<le> rounded" by (simp add: rounded_def)
  ultimately have "2 ^ 52 \<le> rounded" by (rule order_trans)
  then have r: "2 ^ 52 * 2 ^ e \<le> rounded * 2 ^ e" by (rule mult_le_mono1)
  from bl have "1024 \<le> 52 + e" by (simp add: e_def)
  then have "(2::nat) ^ 1024 \<le> 2 ^ (52 + e)" by (rule power_increasing) simp
  then have "DOUBLE_OVERFLOW \<le> 2 ^ 52 * 2 ^ e" by (simp only: power_add DOUBLE_OVERFLOW_def)
  from this r have "DOUBLE_OVERFLOW \<le> rounded * 2 ^ e" by (rule order_trans)
  moreover have "toDouble n = (if rounded * 2 ^ e \<ge> DOUBLE_OVERFLOW then \<infinity> else enat (rounded * 2 ^ e))"
    by (simp only: toDouble_def Let_def e_def q_def rounded_def long if_False)
  ultimately show ?thesis by (simp only: if_True)
qed

lemma Number_decimal: "Number (decimal n) = toDouble n"
  by (simp add: Number_def digitsValue_decimal)

lemma indexOf_body:
  assumes "RBRACE \<notin> set body"
  shows "indexOf (pre @ body @ RBRACE # post) RBRACE (length pre) = Some (length pre + length body)"
    and "slice (pre @ body @ RBRACE # post) (length pre) (length pre + length body) = body"
proof -
  from assms have "takeWhile (\<lambda>x. x \<noteq> RBRACE) (body @ RBRACE # post) = body"
    by (induction body) auto
  then show "indexOf (pre @ body @ RBRACE # post) RBRACE (length pre) = Some (length pre + length body)"
    by (simp add: indexOf_def)
  show "slice (pre @ body @ RBRACE # post) (length pre) (length pre + length body) = body"
    by (simp add: slice_def)
qed

lemma parseQuantifier_body:
  assumes "RBRACE \<notin> set body"
  shows "parseQuantifier (pre @ body @ RBRACE # post) (length pre) =
     (if body = [] then Inl EmptyQuantifier
      else if body = [PLUS] then Inr (1, \<infinity>, length pre + length body + 1)
      else if \<not> positive_integer_re body then Inl (InvalidQuantifier body)
      else Inr (Number body, Number body, length pre + length body + 1))"
  by (simp add: parseQuantifier_def indexOf_body [OF assms] Let_def)

lemma makeSymbolNode_plain:
  "makeSymbolNode ch = Inr node \<Longrightarrow> ch \<noteq> LBRACK \<and> ch \<noteq> RBRACK \<and> ch \<noteq> BAR"
  by (auto simp: makeSymbolNode_def split: if_splits)

lemma parseFragment_quantified_symbol:
  assumes mk: "makeSymbolNode ch = Inr node" and nb: "RBRACE \<notin> set body"
  shows "parseFragment ([ch, LBRACE] @ body @ [RBRACE]) =
     (if body = [] then Inl EmptyQuantifier
      else if body = [PLUS] then Inr [Symbol (withQuantifier node 1 \<infinity>)]
      else if \<not> positive_integer_re body then Inl (InvalidQuantifier body)
      else Inr [Symbol (withQuantifier node (Number body) (Number body))])"
proof -
  define f where "f = [ch, LBRACE] @ body @ [RBRACE]"
  have len: "length f = length body + 3" and f0: "f ! 0 = ch" and f1: "char_at f (0 + 1) = Some LBRACE"
    by (simp_all add: f_def char_at_def)
  note pl = makeSymbolNode_plain [OF mk]
  have two: "length [ch, LBRACE] = 0 + 2" by simp
  have q: "parseQuantifier f (0 + 2) =
     (if body = [] then Inl EmptyQuantifier
      else if body = [PLUS] then Inr (1, \<infinity>, length f)
      else if \<not> positive_integer_re body then Inl (InvalidQuantifier body)
      else Inr (Number body, Number body, length f))"
    using parseQuantifier_body [OF nb, of "[ch, LBRACE]" "[]"]
    unfolding two f_def by simp
  have fin: "\<And>nodes. parseFragment_loop f (length f) nodes = Inr nodes"
    by (subst parseFragment_loop.simps) simp
  have "parseFragment_loop f 0 [] =
     (case parseQuantifier f (0 + 2) of
        Inl e \<Rightarrow> Inl e
      | Inr (mn, mx, nextIndex) \<Rightarrow> parseFragment_loop f nextIndex ([] @ [Symbol (withQuantifier node mn mx)]))"
    using pl mk len by (subst parseFragment_loop.simps) (simp only: f0 f1 Let_def, simp)
  also have "\<dots> =
     (if body = [] then Inl EmptyQuantifier
      else if body = [PLUS] then Inr [Symbol (withQuantifier node 1 \<infinity>)]
      else if \<not> positive_integer_re body then Inl (InvalidQuantifier body)
      else Inr [Symbol (withQuantifier node (Number body) (Number body))])"
    unfolding q by (simp add: fin)
  finally show ?thesis by (simp only: parseFragment_def f_def)
qed

text \<open>
  C7, as amended. The body of a quantifier is the text between the brace that follows a
  symbol and the next closing brace. The body \<open>+\<close> gives the bounds 1 and infinity; a body
  that matches \<open>^[1-9]\d*$\<close>, which is the decimal numeral of a positive integer, gives both
  bounds equal to \<open>Number(body)\<close>, the double nearest to that integer, which is that integer
  whenever it is at most \<open>2^53\<close>; every other body, empty, with a leading zero or not
  numeric, is an error, and the pattern \<open>A{0}\<close> does not compile. The statement is about
  \<open>parseQuantifier\<close> at any place of a fragment and about the fragment of one symbol with
  its quantifier.
\<close>

theorem quantifier_parsing:
  assumes "makeSymbolNode ch = Inr node" and "RBRACE \<notin> set body"
  shows "(body = [PLUS] \<longrightarrow>
            parseQuantifier (pre @ body @ RBRACE # post) (length pre)
              = Inr (1, \<infinity>, length pre + length body + 1)
          \<and> parseFragment ([ch, LBRACE] @ body @ [RBRACE])
              = Inr [Symbol (node \<lparr> min_rep := 1, max_rep := \<infinity> \<rparr>)])
       \<and> (\<forall>n. 1 \<le> n \<and> body = decimal n \<longrightarrow>
            parseQuantifier (pre @ body @ RBRACE # post) (length pre)
              = Inr (toDouble n, toDouble n, length pre + length body + 1)
          \<and> parseFragment ([ch, LBRACE] @ body @ [RBRACE])
              = Inr [Symbol (node \<lparr> min_rep := toDouble n, max_rep := toDouble n \<rparr>)])
       \<and> (\<forall>n. 1 \<le> n \<and> n \<le> 2 ^ 53 \<and> body = decimal n \<longrightarrow>
            parseQuantifier (pre @ body @ RBRACE # post) (length pre)
              = Inr (enat n, enat n, length pre + length body + 1)
          \<and> parseFragment ([ch, LBRACE] @ body @ [RBRACE])
              = Inr [Symbol (node \<lparr> min_rep := enat n, max_rep := enat n \<rparr>)])
       \<and> (positive_integer_re body \<longleftrightarrow> (\<exists>n. 1 \<le> n \<and> body = decimal n))
       \<and> (body \<noteq> [PLUS] \<and> \<not> positive_integer_re body \<longrightarrow>
            parseQuantifier (pre @ body @ RBRACE # post) (length pre)
              = Inl (if body = [] then EmptyQuantifier else InvalidQuantifier body)
          \<and> parseFragment ([ch, LBRACE] @ body @ [RBRACE])
              = Inl (if body = [] then EmptyQuantifier else InvalidQuantifier body))
       \<and> parseMask (asc ''A{0}'') = Inl (InvalidQuantifier (asc ''0''))"
proof -
  note pq = parseQuantifier_body [OF assms(2), of pre post]
  note pf = parseFragment_quantified_symbol [OF assms]
  have a: "body = [PLUS] \<longrightarrow>
            parseQuantifier (pre @ body @ RBRACE # post) (length pre)
              = Inr (1, \<infinity>, length pre + length body + 1)
          \<and> parseFragment ([ch, LBRACE] @ body @ [RBRACE])
              = Inr [Symbol (node \<lparr> min_rep := 1, max_rep := \<infinity> \<rparr>)]"
  proof
    assume bp: "body = [PLUS]"
    show "parseQuantifier (pre @ body @ RBRACE # post) (length pre)
              = Inr (1, \<infinity>, length pre + length body + 1)
          \<and> parseFragment ([ch, LBRACE] @ body @ [RBRACE])
              = Inr [Symbol (node \<lparr> min_rep := 1, max_rep := \<infinity> \<rparr>)]"
      unfolding pq pf by (simp add: bp withQuantifier_def)
  qed
  have b: "\<forall>n. 1 \<le> n \<and> body = decimal n \<longrightarrow>
            parseQuantifier (pre @ body @ RBRACE # post) (length pre)
              = Inr (toDouble n, toDouble n, length pre + length body + 1)
          \<and> parseFragment ([ch, LBRACE] @ body @ [RBRACE])
              = Inr [Symbol (node \<lparr> min_rep := toDouble n, max_rep := toDouble n \<rparr>)]"
  proof (intro allI impI)
    fix n assume n: "1 \<le> n \<and> body = decimal n"
    then have re: "positive_integer_re body" and num: "Number body = toDouble n"
      by (simp_all add: positive_integer_re_decimal Number_decimal)
    from re have ne: "body \<noteq> []" "body \<noteq> [PLUS]"
      by (auto simp: positive_integer_re_def PLUS_def)
    show "parseQuantifier (pre @ body @ RBRACE # post) (length pre)
              = Inr (toDouble n, toDouble n, length pre + length body + 1)
          \<and> parseFragment ([ch, LBRACE] @ body @ [RBRACE])
              = Inr [Symbol (node \<lparr> min_rep := toDouble n, max_rep := toDouble n \<rparr>)]"
      unfolding pq pf by (simp add: re num ne withQuantifier_def)
  qed
  have c: "\<forall>n. 1 \<le> n \<and> n \<le> 2 ^ 53 \<and> body = decimal n \<longrightarrow>
            parseQuantifier (pre @ body @ RBRACE # post) (length pre)
              = Inr (enat n, enat n, length pre + length body + 1)
          \<and> parseFragment ([ch, LBRACE] @ body @ [RBRACE])
              = Inr [Symbol (node \<lparr> min_rep := enat n, max_rep := enat n \<rparr>)]"
  proof (intro allI impI)
    fix n assume n: "1 \<le> n \<and> n \<le> 2 ^ 53 \<and> body = decimal n"
    then have e: "toDouble n = enat n" by (simp add: toDouble_exact)
    from n b have "parseQuantifier (pre @ body @ RBRACE # post) (length pre)
              = Inr (toDouble n, toDouble n, length pre + length body + 1)
          \<and> parseFragment ([ch, LBRACE] @ body @ [RBRACE])
              = Inr [Symbol (node \<lparr> min_rep := toDouble n, max_rep := toDouble n \<rparr>)]"
      by blast
    then show "parseQuantifier (pre @ body @ RBRACE # post) (length pre)
              = Inr (enat n, enat n, length pre + length body + 1)
          \<and> parseFragment ([ch, LBRACE] @ body @ [RBRACE])
              = Inr [Symbol (node \<lparr> min_rep := enat n, max_rep := enat n \<rparr>)]"
      unfolding e .
  qed
  have d: "body \<noteq> [PLUS] \<and> \<not> positive_integer_re body \<longrightarrow>
            parseQuantifier (pre @ body @ RBRACE # post) (length pre)
              = Inl (if body = [] then EmptyQuantifier else InvalidQuantifier body)
          \<and> parseFragment ([ch, LBRACE] @ body @ [RBRACE])
              = Inl (if body = [] then EmptyQuantifier else InvalidQuantifier body)"
    unfolding pq pf by simp
  have e: "parseMask (asc ''A{0}'') = Inl (InvalidQuantifier (asc ''0''))"
    by code_simp
  from a b c d e positive_integer_re_decimal_iff [of body] show ?thesis by blast
qed

text \<open>The symbol \<open>A\<close> with the quantifier \<open>{12}\<close>.\<close>

theorem quantifier_parsing_witness:
  "makeSymbolNode LETTER_A = Inr \<lparr>kind = KindA, val = None, min_rep = 1, max_rep = 1\<rparr>
   \<and> RBRACE \<notin> set (decimal 12)
   \<and> decimal 12 = asc ''12''
   \<and> parseFragment ([LETTER_A, LBRACE] @ decimal 12 @ [RBRACE])
       = Inr [Symbol (\<lparr>kind = KindA, val = None, min_rep = 1, max_rep = 1\<rparr> \<lparr> min_rep := enat 12, max_rep := enat 12 \<rparr>)]
   \<and> parseQuantifier (asc ''A{'' @ decimal 12 @ RBRACE # []) (length (asc ''A{''))
       = Inr (enat 12, enat 12, length (asc ''A{'') + length (decimal 12) + 1)"
proof -
  have a: "makeSymbolNode LETTER_A = Inr \<lparr>kind = KindA, val = None, min_rep = 1, max_rep = 1\<rparr>"
    by (simp add: makeSymbolNode_def special_chars DIGIT_0_def)
  have b: "RBRACE \<notin> set (decimal 12)"
    by (simp add: decimal.simps digit_def RBRACE_def)
  have c: "decimal 12 = asc ''12''"
    by (simp add: decimal.simps digit_def asc_def)
  have n: "1 \<le> (12::nat) \<and> 12 \<le> (2::nat) ^ 53 \<and> decimal 12 = decimal 12"
    by simp
  note q = quantifier_parsing [OF a b, of "asc ''A{''" "[]", THEN conjunct2, THEN conjunct2,
      THEN conjunct1, rule_format, OF n]
  from q a b c show ?thesis by (simp only: simp_thms)
qed

text \<open>
  The claim as stated fails above \<open>2^53\<close>: the body \<open>9007199254740993\<close> is the numeral of
  \<open>2^53 + 1\<close> and gives both bounds \<open>9007199254740992\<close>. From \<open>2^1024\<close> on, as for the
  numeral of \<open>10^309\<close>, both bounds are \<open>Infinity\<close>.
\<close>

theorem quantifier_rounding_counterexample:
  "decimal 9007199254740993 = asc ''9007199254740993''
   \<and> positive_integer_re (asc ''9007199254740993'')
   \<and> parseQuantifier (asc ''A{'' @ asc ''9007199254740993'' @ RBRACE # []) (length (asc ''A{''))
       = Inr (enat 9007199254740992, enat 9007199254740992, 19)
   \<and> parseFragment ([LETTER_A, LBRACE] @ asc ''9007199254740993'' @ [RBRACE])
       = Inr [Symbol \<lparr>kind = KindA, val = None, min_rep = enat 9007199254740992,
                       max_rep = enat 9007199254740992\<rparr>]
   \<and> [LETTER_A, LBRACE] @ asc ''9007199254740993'' @ [RBRACE] = asc ''A{9007199254740993}''
   \<and> toDouble (10 ^ 309) = \<infinity>"
proof -
  have mk: "makeSymbolNode LETTER_A = Inr \<lparr>kind = KindA, val = None, min_rep = 1, max_rep = 1\<rparr>"
    by (simp add: makeSymbolNode_def special_chars DIGIT_0_def)
  have nb: "RBRACE \<notin> set (asc ''9007199254740993'')"
    by (simp add: asc_def RBRACE_def)
  have d: "decimal 9007199254740993 = asc ''9007199254740993''"
    by (simp add: decimal.simps digit_def asc_def)
  have re: "positive_integer_re (asc ''9007199254740993'')"
    by (simp add: positive_integer_re_def asc_def DIGIT_RE_def)
  have ne: "asc ''9007199254740993'' \<noteq> []" "asc ''9007199254740993'' \<noteq> [PLUS]"
    by (simp_all add: asc_def)
  have num: "Number (asc ''9007199254740993'') = enat 9007199254740992"
    by (simp add: Number_def digitsValue_def asc_def toDouble_def bitLength.simps Let_def
        DOUBLE_OVERFLOW_def)
  have q: "parseQuantifier (asc ''A{'' @ asc ''9007199254740993'' @ RBRACE # []) (length (asc ''A{''))
       = Inr (enat 9007199254740992, enat 9007199254740992, 19)"
    unfolding parseQuantifier_body [OF nb] by (simp add: re ne num) (simp add: asc_def)
  have f: "parseFragment ([LETTER_A, LBRACE] @ asc ''9007199254740993'' @ [RBRACE])
       = Inr [Symbol \<lparr>kind = KindA, val = None, min_rep = enat 9007199254740992,
                       max_rep = enat 9007199254740992\<rparr>]"
    unfolding parseFragment_quantified_symbol [OF mk nb] by (simp add: re ne num withQuantifier_def)
  have s: "[LETTER_A, LBRACE] @ asc ''9007199254740993'' @ [RBRACE] = asc ''A{9007199254740993}''"
    by (simp add: asc_def special_chars)
  have "DOUBLE_OVERFLOW \<le> 10 ^ 309"
    by (simp add: DOUBLE_OVERFLOW_def)
  then have o: "toDouble (10 ^ 309) = \<infinity>"
    by (rule toDouble_overflow)
  from d re q f s o show ?thesis by (simp only: simp_thms)
qed

section \<open>Invariants of a compiled mask\<close>

text \<open>The invariant of a compiled node: the bounds of every symbol and the shape of every group.\<close>

fun wfNode :: "MaskNode \<Rightarrow> bool" where
  "wfNode (Symbol s) \<longleftrightarrow> 1 \<le> min_rep s \<and> min_rep s \<le> max_rep s \<and> (max_rep s = min_rep s \<or> max_rep s = \<infinity>)"
| "wfNode (Group alts) \<longleftrightarrow> alts \<noteq> [] \<and> (\<forall>alt \<in> set alts. alt \<noteq> [] \<and> (\<forall>n \<in> set alt. wfNode n))"

lemma digitsValue_foldl_ge: "n \<le> foldl (\<lambda>n c. 10 * n + (unat (c :: cu) - 48)) n cs"
proof (induction cs arbitrary: n)
  case Nil
  show ?case by simp
next
  case (Cons c cs)
  have "n \<le> 10 * n + (unat c - 48)" by simp
  also have "\<dots> \<le> foldl (\<lambda>n c. 10 * n + (unat c - 48)) (10 * n + (unat c - 48)) cs" by (rule Cons.IH)
  finally show ?case by simp
qed

lemma digitsValue_positive: "positive_integer_re body \<Longrightarrow> 1 \<le> digitsValue body"
proof -
  assume a: "positive_integer_re body"
  then obtain c cs where b: "body = c # cs" and c: "49 \<le> c"
    by (auto simp: positive_integer_re_def split: list.splits)
  from c have "49 \<le> unat c" by (simp add: word_le_nat_alt)
  then have "1 \<le> 10 * 0 + (unat c - 48)" by simp
  also have "\<dots> \<le> foldl (\<lambda>n c. 10 * n + (unat c - 48)) (10 * 0 + (unat c - 48)) cs"
    by (rule digitsValue_foldl_ge)
  finally show ?thesis by (simp add: digitsValue_def b)
qed

lemma Number_positive: "positive_integer_re body \<Longrightarrow> 1 \<le> Number body"
  unfolding Number_def by (rule toDouble_positive) (rule digitsValue_positive)

lemma parseQuantifier_bounds:
  "parseQuantifier fragment startIndex = Inr (mn, mx, nextIndex) \<Longrightarrow>
     1 \<le> mn \<and> mn \<le> mx \<and> (mx = mn \<or> mx = \<infinity>)"
  by (auto simp: parseQuantifier_def Let_def dest: Number_positive
      split: option.splits if_splits)

lemma makeSymbolNode_bounds:
  "makeSymbolNode ch = Inr node \<Longrightarrow> min_rep node = 1 \<and> max_rep node = 1"
  by (auto simp: makeSymbolNode_def Let_def split: if_splits)

lemma wfNode_withQuantifier:
  "parseQuantifier fragment startIndex = Inr (mn, mx, nextIndex) \<Longrightarrow>
     wfNode (Symbol (withQuantifier node mn mx))"
  using parseQuantifier_bounds [of fragment startIndex mn mx nextIndex]
  by (simp add: withQuantifier_def)

lemma wfNode_makeSymbolNode: "makeSymbolNode ch = Inr node \<Longrightarrow> wfNode (Symbol node)"
  using makeSymbolNode_bounds [of ch node] by simp

lemma parseGroup_wf:
  "parseGroup fragment i current alts = Inr (g, j) \<Longrightarrow>
     \<forall>n \<in> set current. wfNode n \<Longrightarrow>
     \<forall>alt \<in> set alts. alt \<noteq> [] \<and> (\<forall>n \<in> set alt. wfNode n) \<Longrightarrow> wfNode g"
proof (induction fragment i current alts arbitrary: g j rule: parseGroup.induct)
  case (1 fragment i current alts)
  note ps = parseGroup.simps [of fragment i current alts]
  note res = "1.prems"(1)
  note cur = "1.prems"(2)
  note al = "1.prems"(3)
  define ch where "ch = fragment ! i"
  define la where "la = char_at fragment (i + 1)"
  have lt: "i < length fragment"
    using res by (subst (asm) ps) (simp split: if_splits)
  consider (colon) "ch = COLON \<and> la \<noteq> None"
    | (nested) "\<not> (ch = COLON \<and> la \<noteq> None)" "ch = LBRACK \<and> la = Some LBRACK"
    | (bar) "\<not> (ch = COLON \<and> la \<noteq> None)" "\<not> (ch = LBRACK \<and> la = Some LBRACK)" "ch = BAR"
    | (close) "\<not> (ch = COLON \<and> la \<noteq> None)" "\<not> (ch = LBRACK \<and> la = Some LBRACK)" "ch \<noteq> BAR"
        "ch = RBRACK \<and> la = Some RBRACK"
    | (bad) "\<not> (ch = COLON \<and> la \<noteq> None)" "\<not> (ch = LBRACK \<and> la = Some LBRACK)" "ch \<noteq> BAR"
        "\<not> (ch = RBRACK \<and> la = Some RBRACK)" "ch = RBRACK \<or> ch = LBRACE \<or> ch = RBRACE"
    | (sym) "\<not> (ch = COLON \<and> la \<noteq> None)" "\<not> (ch = LBRACK \<and> la = Some LBRACK)" "ch \<noteq> BAR"
        "\<not> (ch = RBRACK \<and> la = Some RBRACK)" "\<not> (ch = RBRACK \<or> ch = LBRACE \<or> ch = RBRACE)"
    by blast
  then show ?case
  proof cases
    case colon
    with res lt show ?thesis
      by (subst (asm) ps) (simp add: ch_def la_def Let_def)
  next
    case nested
    from res lt nested obtain g1 j1 where
      r1: "parseGroup fragment (i + 2) [] [] = Inr (g1, j1)" and
      r2: "parseGroup fragment j1 (current @ [g1]) alts = Inr (g, j)"
      by (subst (asm) ps) (auto simp: ch_def la_def Let_def split: sum.splits)
    have "wfNode g1"
      by (rule "1.IH"(1) [OF lt ch_def la_def nested r1]) simp_all
    with cur have cur': "\<forall>n \<in> set (current @ [g1]). wfNode n" by simp
    show ?thesis
      by (rule "1.IH"(2) [OF lt ch_def la_def nested r1 refl r2 cur' al])
  next
    case bar
    with res lt have "current \<noteq> [] \<and>
        parseGroup fragment (i + 1) [] (alts @ [current]) = Inr (g, j)"
      by (subst (asm) ps) (simp add: ch_def la_def Let_def split: if_splits)
    then have nonempty: "current \<noteq> []"
      and r: "parseGroup fragment (i + 1) [] (alts @ [current]) = Inr (g, j)" by simp_all
    from al cur nonempty
    have al': "\<forall>alt \<in> set (alts @ [current]). alt \<noteq> [] \<and> (\<forall>n \<in> set alt. wfNode n)" by simp
    show ?thesis
      by (rule "1.IH"(3) [OF lt ch_def la_def bar nonempty r _ al']) simp
  next
    case close
    with res lt have "current \<noteq> [] \<and> g = Group (alts @ [current])"
      by (subst (asm) ps) (auto simp: ch_def la_def Let_def split: if_splits)
    with al cur show ?thesis by simp
  next
    case bad
    with res lt show ?thesis
      by (subst (asm) ps) (auto simp: ch_def la_def Let_def split: if_splits)
  next
    case sym
    from res lt sym obtain node where
      mk: "makeSymbolNode ch = Inr node"
      by (subst (asm) ps) (auto simp: ch_def la_def Let_def split: sum.splits)
    show ?thesis
    proof (cases "char_at fragment (i + 1) = Some LBRACE")
      case True
      from res lt sym mk True obtain mn mx nextIndex where
        q: "parseQuantifier fragment (i + 2) = Inr (mn, mx, nextIndex)" and
        r: "parseGroup fragment nextIndex (current @ [Symbol (withQuantifier node mn mx)]) alts = Inr (g, j)"
        by (subst (asm) ps) (auto simp: ch_def la_def Let_def split: sum.splits)
      from cur wfNode_withQuantifier [OF q, of node]
      have cur': "\<forall>n \<in> set (current @ [Symbol (withQuantifier node mn mx)]). wfNode n" by simp
      show ?thesis
        by (rule "1.IH"(4) [OF lt ch_def la_def sym mk True q refl refl r cur' al])
    next
      case False
      from res lt sym mk False have
        r: "parseGroup fragment (i + 1) (current @ [Symbol node]) alts = Inr (g, j)"
        by (subst (asm) ps) (auto simp: ch_def la_def Let_def split: sum.splits)
      from cur wfNode_makeSymbolNode [OF mk]
      have cur': "\<forall>n \<in> set (current @ [Symbol node]). wfNode n" by simp
      show ?thesis
        by (rule "1.IH"(5) [OF lt ch_def la_def sym mk False r cur' al])
    qed
  qed
qed


lemma parseFragment_loop_wf:
  "parseFragment_loop fragment i nodes = Inr res \<Longrightarrow>
     \<forall>n \<in> set nodes. wfNode n \<Longrightarrow>
     (\<forall>n \<in> set res. wfNode n) \<and> (nodes \<noteq> [] \<or> i < length fragment \<longrightarrow> res \<noteq> [])"
proof (induction fragment i nodes rule: parseFragment_loop.induct)
  case (1 fragment i nodes)
  note ps = parseFragment_loop.simps [of fragment i nodes]
  note res = "1.prems"(1)
  note wf = "1.prems"(2)
  define ch where "ch = fragment ! i"
  define nx where "nx = char_at fragment (i + 1)"
  show ?case
  proof (cases "i < length fragment")
    case False
    with res have "res = nodes" by (subst (asm) ps) simp
    with wf False show ?thesis by simp
  next
    case lt: True
    consider (group) "ch = LBRACK \<and> nx = Some LBRACK"
      | (closing) "\<not> (ch = LBRACK \<and> nx = Some LBRACK)" "ch = RBRACK \<or> (ch = RBRACK \<and> nx = Some RBRACK)"
      | (bar) "\<not> (ch = LBRACK \<and> nx = Some LBRACK)" "\<not> (ch = RBRACK \<or> (ch = RBRACK \<and> nx = Some RBRACK))"
          "ch = BAR"
      | (sym) "\<not> (ch = LBRACK \<and> nx = Some LBRACK)" "\<not> (ch = RBRACK \<or> (ch = RBRACK \<and> nx = Some RBRACK))"
          "ch \<noteq> BAR"
      by blast
    then show ?thesis
    proof cases
      case group
      from res lt group obtain g j where
        r1: "parseGroup fragment (i + 2) [] [] = Inr (g, j)" and
        nq: "char_at fragment j \<noteq> Some LBRACE" and
        r2: "parseFragment_loop fragment j (nodes @ [g]) = Inr res"
        by (subst (asm) ps) (auto simp: ch_def nx_def Let_def split: sum.splits if_splits)
      have "wfNode g" by (rule parseGroup_wf [OF r1]) simp_all
      with wf have wf': "\<forall>n \<in> set (nodes @ [g]). wfNode n" by simp
      from "1.IH"(1) [OF lt ch_def nx_def group r1 refl nq r2 wf'] show ?thesis by simp
    next
      case closing
      with res lt show ?thesis
        by (subst (asm) ps) (auto simp: ch_def nx_def Let_def split: if_splits)
    next
      case bar
      with res lt show ?thesis
        by (subst (asm) ps) (auto simp: ch_def nx_def Let_def split: if_splits)
    next
      case sym
      from res lt sym obtain node where
        mk: "makeSymbolNode ch = Inr node"
        by (subst (asm) ps) (auto simp: ch_def nx_def Let_def split: sum.splits)
      show ?thesis
      proof (cases "char_at fragment (i + 1) = Some LBRACE")
        case True
        from res lt sym mk True obtain mn mx nextIndex where
          q: "parseQuantifier fragment (i + 2) = Inr (mn, mx, nextIndex)" and
          r: "parseFragment_loop fragment nextIndex (nodes @ [Symbol (withQuantifier node mn mx)]) = Inr res"
          by (subst (asm) ps) (auto simp: ch_def nx_def Let_def split: sum.splits)
        from wf wfNode_withQuantifier [OF q, of node]
        have wf': "\<forall>n \<in> set (nodes @ [Symbol (withQuantifier node mn mx)]). wfNode n" by simp
        from "1.IH"(2) [OF lt ch_def nx_def sym mk True q refl refl r wf'] show ?thesis by simp
      next
        case False
        from res lt sym mk False have
          r: "parseFragment_loop fragment (i + 1) (nodes @ [Symbol node]) = Inr res"
          by (subst (asm) ps) (auto simp: ch_def nx_def Let_def split: sum.splits)
        from wf wfNode_makeSymbolNode [OF mk]
        have wf': "\<forall>n \<in> set (nodes @ [Symbol node]). wfNode n" by simp
        from "1.IH"(3) [OF lt ch_def nx_def sym mk False r wf'] show ?thesis by simp
      qed
    qed
  qed
qed

lemma parseFragment_wf:
  "parseFragment fragment = Inr nodes \<Longrightarrow> fragment \<noteq> [] \<Longrightarrow>
     nodes \<noteq> [] \<and> (\<forall>n \<in> set nodes. wfNode n)"
  using parseFragment_loop_wf [of fragment 0 "[]" nodes] by (simp add: parseFragment_def)

lemma parseFragments_wf:
  "parseFragments fs = Inr frags \<Longrightarrow> [] \<notin> set fs \<Longrightarrow>
     length frags = length fs \<and> (\<forall>frag \<in> set frags. frag \<noteq> [] \<and> (\<forall>n \<in> set frag. wfNode n))"
proof (induction fs arbitrary: frags)
  case Nil
  then show ?case by simp
next
  case (Cons f fs)
  from Cons.prems(1) obtain nodes rest where
    a: "parseFragment f = Inr nodes" and b: "parseFragments fs = Inr rest" and c: "frags = nodes # rest"
    by (auto split: sum.splits)
  from Cons.prems(2) have "f \<noteq> []" and "[] \<notin> set fs" by auto
  with parseFragment_wf [OF a] Cons.IH [OF b] c show ?case by simp
qed

lemma splitBySeparators_loop_inv:
  "splitBySeparators_loop pattern i current depth frags seps = Inr (fs, ss) \<Longrightarrow>
     [] \<notin> set frags \<Longrightarrow> length seps = length frags \<Longrightarrow>
     [] \<notin> set fs \<and> length fs = length ss + 1"
proof (induction pattern i current depth frags seps rule: splitBySeparators_loop.induct)
  case (1 pattern i current depth frags seps)
  note ps = splitBySeparators_loop.simps [of pattern i current depth frags seps]
  note res = "1.prems"(1)
  define ch where "ch = pattern ! i"
  define nx where "nx = char_at pattern (i + 1)"
  show ?case
  proof (cases "i < length pattern")
    case False
    with res have "depth = 0 \<and> current \<noteq> [] \<and> fs = frags @ [current] \<and> ss = seps"
      by (subst (asm) ps) (auto split: if_splits)
    with "1.prems"(2,3) show ?thesis by auto
  next
    case lt: True
    consider (group_open) "ch = LBRACK \<and> nx = Some LBRACK"
      | (closing) "\<not> (ch = LBRACK \<and> nx = Some LBRACK)" "ch = RBRACK \<and> nx = Some RBRACK"
      | (sep) "\<not> (ch = LBRACK \<and> nx = Some LBRACK)" "\<not> (ch = RBRACK \<and> nx = Some RBRACK)"
          "ch = COLON \<and> depth = 0"
      | (inner) "\<not> (ch = LBRACK \<and> nx = Some LBRACK)" "\<not> (ch = RBRACK \<and> nx = Some RBRACK)"
          "\<not> (ch = COLON \<and> depth = 0)" "ch = COLON \<and> depth > 0"
      | (plain) "\<not> (ch = LBRACK \<and> nx = Some LBRACK)" "\<not> (ch = RBRACK \<and> nx = Some RBRACK)"
          "\<not> (ch = COLON \<and> depth = 0)" "\<not> (ch = COLON \<and> depth > 0)"
      by blast
    then show ?thesis
    proof cases
      case group_open
      with res lt have
        r: "splitBySeparators_loop pattern (i + 2) (current @ [LBRACK, LBRACK]) (depth + 1) frags seps = Inr (fs, ss)"
        by (subst (asm) ps) (simp add: ch_def nx_def Let_def)
      from "1.IH"(1) [OF lt ch_def nx_def group_open r "1.prems"(2,3)] show ?thesis .
    next
      case closing
      with res lt have "depth \<noteq> 0 \<and>
        splitBySeparators_loop pattern (i + 2) (current @ [RBRACK, RBRACK]) (depth - 1) frags seps = Inr (fs, ss)"
        by (subst (asm) ps) (simp add: ch_def nx_def Let_def split: if_splits)
      then have d: "depth \<noteq> 0" and
        r: "splitBySeparators_loop pattern (i + 2) (current @ [RBRACK, RBRACK]) (depth - 1) frags seps = Inr (fs, ss)"
        by simp_all
      from "1.IH"(2) [OF lt ch_def nx_def closing d r "1.prems"(2,3)] show ?thesis .
    next
      case sep
      from res lt sep obtain e where
        ix: "indexOf pattern COLON (i + 1) = Some e" and ne: "current \<noteq> []" and
        r: "splitBySeparators_loop pattern (e + 1) [] depth (frags @ [current])
              (seps @ [slice pattern (i + 1) e]) = Inr (fs, ss)"
        by (subst (asm) ps) (auto simp: ch_def nx_def Let_def split: option.splits if_splits)
      from "1.prems"(2,3) ne have a: "[] \<notin> set (frags @ [current])"
        and b: "length (seps @ [slice pattern (i + 1) e]) = length (frags @ [current])" by auto
      from "1.IH"(3) [OF lt ch_def nx_def sep ix ne r a b] show ?thesis .
    next
      case inner
      with res lt show ?thesis
        by (subst (asm) ps) (simp add: ch_def nx_def Let_def)
    next
      case plain
      with res lt have
        r: "splitBySeparators_loop pattern (i + 1) (current @ [ch]) depth frags seps = Inr (fs, ss)"
        by (subst (asm) ps) (auto simp: ch_def nx_def Let_def split: if_splits)
      from "1.IH"(4) [OF lt ch_def nx_def plain r "1.prems"(2,3)] show ?thesis .
    qed
  qed
qed

lemma parseMask_wf:
  "parseMask pattern = Inr parsed \<Longrightarrow>
     length (fragments parsed) = length (separators parsed) + 1
     \<and> (\<forall>frag \<in> set (fragments parsed). frag \<noteq> [] \<and> (\<forall>n \<in> set frag. wfNode n))"
proof -
  assume a: "parseMask pattern = Inr parsed"
  then obtain rawFragments seps frags where
    sp: "splitBySeparators pattern = Inr (rawFragments, seps)" and
    pf: "parseFragments rawFragments = Inr frags" and
    p: "parsed = \<lparr> fragments = frags, separators = seps \<rparr>"
    by (auto simp: parseMask_def split: if_splits sum.splits)
  from splitBySeparators_loop_inv [of pattern 0 "[]" 0 "[]" "[]" rawFragments seps] sp
  have "[] \<notin> set rawFragments" and "length rawFragments = length seps + 1"
    by (simp_all add: splitBySeparators_def)
  with parseFragments_wf [OF pf] p show ?thesis by simp
qed

section \<open>The lookahead context of a fragment\<close>
















section \<open>Formatting never fails\<close>














section \<open>Groups of a compiled mask have no empty alternative\<close>

text \<open>The lists of alternatives of the groups of a node, at any depth.\<close>

fun groupsOf :: "MaskNode \<Rightarrow> MaskNode list list list" where
  "groupsOf (Symbol s) = []"
| "groupsOf (Group alts) = alts # concat (map (\<lambda>alt. concat (map groupsOf alt)) alts)"

lemma wfNode_groups:
  "wfNode node \<Longrightarrow> \<forall>alts \<in> set (groupsOf node). alts \<noteq> [] \<and> [] \<notin> set alts"
  by (induction node rule: groupsOf.induct) auto

lemma parseGroup_empty_at_bar:
  "i < length fragment \<Longrightarrow> fragment ! i = BAR \<Longrightarrow>
     parseGroup fragment i [] alts = Inl EmptyAlternativeInGroup"
  by (subst parseGroup.simps) (simp add: Let_def)

lemma parseGroup_empty_at_close:
  "i < length fragment \<Longrightarrow> fragment ! i = RBRACK \<Longrightarrow> char_at fragment (i + 1) = Some RBRACK \<Longrightarrow>
     parseGroup fragment i [] alts = Inl EmptyAlternativeInGroup"
  by (subst parseGroup.simps) (simp add: Let_def)

text \<open>
  C8, as amended. The pattern \<open>[[A|]]\<close> fails to compile with the error of an empty
  alternative, and so does every group in which the parser meets \<open>|\<close> or \<open>]]\<close> where the
  current alternative has no node. Every group of a compiled mask, at any depth, has at
  least one alternative, and none of its alternatives is empty.
\<close>

theorem empty_alternative_rejected:
  "parseMask (asc ''[[A|]]'') = Inl EmptyAlternativeInGroup
   \<and> (i < length fragment
        \<and> (fragment ! i = BAR \<or> (fragment ! i = RBRACK \<and> char_at fragment (i + 1) = Some RBRACK))
      \<longrightarrow> parseGroup fragment i [] alts = Inl EmptyAlternativeInGroup)
   \<and> (parseMask pattern = Inr parsed \<longrightarrow>
        (\<forall>nodes \<in> set (fragments parsed). \<forall>node \<in> set nodes. \<forall>group \<in> set (groupsOf node).
           group \<noteq> [] \<and> [] \<notin> set group))"
proof -
  have a: "parseMask (asc ''[[A|]]'') = Inl EmptyAlternativeInGroup"
    by code_simp
  have b: "i < length fragment
        \<and> (fragment ! i = BAR \<or> (fragment ! i = RBRACK \<and> char_at fragment (i + 1) = Some RBRACK))
      \<longrightarrow> parseGroup fragment i [] alts = Inl EmptyAlternativeInGroup"
    using parseGroup_empty_at_bar [of i fragment alts] parseGroup_empty_at_close [of i fragment alts]
    by blast
  have c: "parseMask pattern = Inr parsed \<longrightarrow>
        (\<forall>nodes \<in> set (fragments parsed). \<forall>node \<in> set nodes. \<forall>group \<in> set (groupsOf node).
           group \<noteq> [] \<and> [] \<notin> set group)"
  proof (intro impI ballI)
    fix nodes node group
    assume p: "parseMask pattern = Inr parsed" and n: "nodes \<in> set (fragments parsed)"
      and m: "node \<in> set nodes" and g: "group \<in> set (groupsOf node)"
    from parseMask_wf [OF p] n m have "wfNode node" by blast
    from wfNode_groups [OF this] g show "group \<noteq> [] \<and> [] \<notin> set group" by blast
  qed
  from a b c show ?thesis by (simp only: simp_thms)
qed

text \<open>The pattern \<open>[[0|A{2}]]\<close> compiles; in \<open>[[A|]]\<close> the second alternative ends at index 4.\<close>

theorem empty_alternative_rejected_witness:
  "4 < length (asc ''[[A|]]'')
   \<and> asc ''[[A|]]'' ! 4 = RBRACK \<and> char_at (asc ''[[A|]]'') (4 + 1) = Some RBRACK
   \<and> parseGroup (asc ''[[A|]]'') 4 [] [[Symbol \<lparr>kind = Kind0, val = None, min_rep = 1, max_rep = 1\<rparr>]] = Inl EmptyAlternativeInGroup
   \<and> parseMask (asc ''[[0|A{2}]]'') = Inr \<lparr>fragments = [[Group [[Symbol \<lparr>kind = Kind0, val = None, min_rep = 1, max_rep = 1\<rparr>], [Symbol \<lparr>kind = KindA, val = None, min_rep = 2, max_rep = 2\<rparr>]]]], separators = []\<rparr>
   \<and> groupsOf (Group [[Symbol \<lparr>kind = Kind0, val = None, min_rep = 1, max_rep = 1\<rparr>], [Symbol \<lparr>kind = KindA, val = None, min_rep = 2, max_rep = 2\<rparr>]]) = [[[Symbol \<lparr>kind = Kind0, val = None, min_rep = 1, max_rep = 1\<rparr>], [Symbol \<lparr>kind = KindA, val = None, min_rep = 2, max_rep = 2\<rparr>]]]
   \<and> [[Symbol \<lparr>kind = Kind0, val = None, min_rep = 1, max_rep = 1\<rparr>], [Symbol \<lparr>kind = KindA, val = None, min_rep = 2, max_rep = 2\<rparr>]] \<noteq> [] \<and> [] \<notin> set [[Symbol \<lparr>kind = Kind0, val = None, min_rep = 1, max_rep = 1\<rparr>], [Symbol \<lparr>kind = KindA, val = None, min_rep = 2, max_rep = 2\<rparr>]]"
proof -
  have a: "4 < length (asc ''[[A|]]'')
   \<and> asc ''[[A|]]'' ! 4 = RBRACK \<and> char_at (asc ''[[A|]]'') (4 + 1) = Some RBRACK"
    by code_simp
  have b: "parseMask (asc ''[[0|A{2}]]'') = Inr \<lparr>fragments = [[Group [[Symbol \<lparr>kind = Kind0, val = None, min_rep = 1, max_rep = 1\<rparr>], [Symbol \<lparr>kind = KindA, val = None, min_rep = 2, max_rep = 2\<rparr>]]]], separators = []\<rparr>"
    by code_simp
  have c: "groupsOf (Group [[Symbol \<lparr>kind = Kind0, val = None, min_rep = 1, max_rep = 1\<rparr>], [Symbol \<lparr>kind = KindA, val = None, min_rep = 2, max_rep = 2\<rparr>]]) = [[[Symbol \<lparr>kind = Kind0, val = None, min_rep = 1, max_rep = 1\<rparr>], [Symbol \<lparr>kind = KindA, val = None, min_rep = 2, max_rep = 2\<rparr>]]]"
    by simp
  note t = empty_alternative_rejected [of 4 "asc ''[[A|]]''" "[[Symbol \<lparr>kind = Kind0, val = None, min_rep = 1, max_rep = 1\<rparr>]]" "asc ''[[0|A{2}]]''" "\<lparr>fragments = [[Group [[Symbol \<lparr>kind = Kind0, val = None, min_rep = 1, max_rep = 1\<rparr>], [Symbol \<lparr>kind = KindA, val = None, min_rep = 2, max_rep = 2\<rparr>]]]], separators = []\<rparr>"]
  from t a have d: "parseGroup (asc ''[[A|]]'') 4 [] [[Symbol \<lparr>kind = Kind0, val = None, min_rep = 1, max_rep = 1\<rparr>]] = Inl EmptyAlternativeInGroup"
    by blast
  from t b have "\<forall>nodes \<in> set (fragments \<lparr>fragments = [[Group [[Symbol \<lparr>kind = Kind0, val = None, min_rep = 1, max_rep = 1\<rparr>], [Symbol \<lparr>kind = KindA, val = None, min_rep = 2, max_rep = 2\<rparr>]]]], separators = []\<rparr>). \<forall>node \<in> set nodes. \<forall>group \<in> set (groupsOf node).
           group \<noteq> [] \<and> [] \<notin> set group"
    by blast
  then have e: "[[Symbol \<lparr>kind = Kind0, val = None, min_rep = 1, max_rep = 1\<rparr>], [Symbol \<lparr>kind = KindA, val = None, min_rep = 2, max_rep = 2\<rparr>]] \<noteq> [] \<and> [] \<notin> set [[Symbol \<lparr>kind = Kind0, val = None, min_rep = 1, max_rep = 1\<rparr>], [Symbol \<lparr>kind = KindA, val = None, min_rep = 2, max_rep = 2\<rparr>]]"
    by simp
  from a b c d e show ?thesis by (simp only: simp_thms)
qed

text \<open>
  The claim as stated fails on a pattern that has another defect before the empty
  alternative is met: the separators are split off first, and an unclosed separator is
  reported; a quantifier that precedes the group is parsed first.
\<close>

theorem empty_alternative_other_error_counterexample:
  "parseMask (asc ''[[A|]]:'') = Inl SeparatorMustBeClosed
   \<and> parseMask (asc ''[[A|]]:'') \<noteq> Inl EmptyAlternativeInGroup
   \<and> parseMask (asc ''A{0}[[A|]]'') = Inl (InvalidQuantifier (asc ''0''))
   \<and> parseMask (asc ''A{0}[[A|]]'') \<noteq> Inl EmptyAlternativeInGroup"
  by code_simp

section \<open>Repetition bounds of a compiled mask\<close>

text \<open>What a call of \<open>consumeSymbol\<close> returns counts the characters it recognised.\<close>

definition countedResult :: "SymbolNode \<Rightarrow> ConsumeResult \<Rightarrow> bool" where
  "countedResult node r \<longleftrightarrow>
     (satisfied r \<longleftrightarrow> min_rep node \<le> enat (length (raw r)))
     \<and> (\<forall>c \<in> set (raw r). matchesNode node c)
     \<and> enat (length (raw r)) \<le> max_rep node"

lemma consumeSymbol_loop_count:
  "length ra = count \<Longrightarrow> \<forall>c \<in> set ra. matchesNode node c \<Longrightarrow> enat count \<le> max_rep node \<Longrightarrow>
     countedResult node (consumeSymbol_loop node input startPos seps remainingNodes ou ra p count)"
proof (induction node input startPos seps remainingNodes ou ra p count rule: consumeSymbol_loop.induct)
  case (1 node input startPos seps remainingNodes ou ra p count)
  note eq = consumeSymbol_loop.simps [of node input startPos seps remainingNodes ou ra p count]
  let ?stop = "\<lambda>q. \<lparr> out = ou, raw = ra, pos = q, satisfied = (enat count \<ge> min_rep node),
                      advanced = int p - int startPos \<rparr>"
  have stop: "countedResult node (?stop q)" for q
    using "1.prems" by (simp add: countedResult_def)
  show ?case
  proof (cases "p < length input \<and> enat count < max_rep node")
    case False
    then have "consumeSymbol_loop node input startPos seps remainingNodes ou ra p count = ?stop p"
      by (subst eq) auto
    with stop show ?thesis by simp
  next
    case guard: True
    show ?thesis
    proof (cases "0 < separatorLengthAt input p seps")
      case True
      with guard have "consumeSymbol_loop node input startPos seps remainingNodes ou ra p count
                         = ?stop (p + separatorLengthAt input p seps)"
        by (subst eq) (simp add: Let_def)
      with stop show ?thesis by simp
    next
      case nosep: False
      show ?thesis
      proof (cases "matchesNode node (input ! p)")
        case True
        from guard have "enat (count + 1) \<le> max_rep node"
          by (cases "max_rep node") simp_all
        with "1.IH"(1) [OF guard refl _ refl True] nosep "1.prems" True
        have "countedResult node (consumeSymbol_loop node input startPos seps remainingNodes
                (ou @ [input ! p]) (ra @ [input ! p]) (p + 1) (count + 1))"
          by simp
        with guard nosep True show ?thesis
          by (subst eq) (simp add: Let_def)
      next
        case nomatch: False
        show ?thesis
        proof (cases "enat count \<ge> min_rep node \<and> canStartWithChar remainingNodes (input ! p)")
          case True
          with guard nosep nomatch
          have "consumeSymbol_loop node input startPos seps remainingNodes ou ra p count = ?stop p"
            by (subst eq) (simp add: Let_def)
          with stop show ?thesis by simp
        next
          case False
          from "1.IH"(2) [OF guard refl _ refl nomatch False] nosep "1.prems"
          have "countedResult node (consumeSymbol_loop node input startPos seps remainingNodes ou ra (p + 1) count)"
            by simp
          with guard nosep nomatch False show ?thesis
            by (subst eq) (auto simp: Let_def)
        qed
      qed
    qed
  qed
qed

lemma consumeSymbol_count:
  "countedResult node (consumeSymbol node input startPos seps remainingNodes)"
  unfolding consumeSymbol_def
  by (rule consumeSymbol_loop_count) (simp_all add: zero_enat_def [symmetric])

lemma wfNode_symbols:
  "wfNode node \<Longrightarrow> \<forall>s \<in> set (symbolsOf node).
     1 \<le> min_rep s \<and> min_rep s \<le> max_rep s \<and> (max_rep s = min_rep s \<or> max_rep s = \<infinity>)"
  by (induction node rule: symbolsOf.induct) auto

text \<open>
  C10. Every symbol node of a compiled mask, inside groups as well, has bounds with
  \<open>1 \<le> min \<le> max\<close>, where \<open>max\<close> is \<open>min\<close> or \<open>Infinity\<close>; \<open>min\<close> is not 0. A call of
  \<open>consumeSymbol\<close> for such a node that returns satisfied has recognised at least \<open>min\<close>
  characters, so at least one, and every character it recognised matches the node.
\<close>

theorem compiled_symbol_bounds:
  "parseMask pattern = Inr parsed \<longrightarrow>
     (\<forall>nodes \<in> set (fragments parsed). \<forall>node \<in> set nodes. \<forall>s \<in> set (symbolsOf node).
        1 \<le> min_rep s \<and> min_rep s \<le> max_rep s \<and> (max_rep s = min_rep s \<or> max_rep s = \<infinity>)
        \<and> min_rep s \<noteq> 0
        \<and> (\<forall>input startPos seps remainingNodes.
              satisfied (consumeSymbol s input startPos seps remainingNodes) \<longrightarrow>
                raw (consumeSymbol s input startPos seps remainingNodes) \<noteq> []
                \<and> min_rep s \<le> enat (length (raw (consumeSymbol s input startPos seps remainingNodes)))
                \<and> (\<forall>c \<in> set (raw (consumeSymbol s input startPos seps remainingNodes)). matchesNode s c)))"
proof (intro impI ballI)
  fix nodes node s
  assume p: "parseMask pattern = Inr parsed" and n: "nodes \<in> set (fragments parsed)"
    and m: "node \<in> set nodes" and g: "s \<in> set (symbolsOf node)"
  from parseMask_wf [OF p] n m have "wfNode node" by blast
  from bspec [OF wfNode_symbols [OF this] g]
  have b: "1 \<le> min_rep s \<and> min_rep s \<le> max_rep s \<and> (max_rep s = min_rep s \<or> max_rep s = \<infinity>)" .
  then have z: "min_rep s \<noteq> 0" by auto
  have c: "satisfied (consumeSymbol s input startPos seps remainingNodes) \<longrightarrow>
                raw (consumeSymbol s input startPos seps remainingNodes) \<noteq> []
                \<and> min_rep s \<le> enat (length (raw (consumeSymbol s input startPos seps remainingNodes)))
                \<and> (\<forall>c \<in> set (raw (consumeSymbol s input startPos seps remainingNodes)). matchesNode s c)"
    for input startPos seps remainingNodes
  proof
    assume sat: "satisfied (consumeSymbol s input startPos seps remainingNodes)"
    from consumeSymbol_count [of s input startPos seps remainingNodes] sat
    have l: "min_rep s \<le> enat (length (raw (consumeSymbol s input startPos seps remainingNodes)))"
      and k: "\<forall>c \<in> set (raw (consumeSymbol s input startPos seps remainingNodes)). matchesNode s c"
      by (simp_all add: countedResult_def)
    from l b have "1 \<le> enat (length (raw (consumeSymbol s input startPos seps remainingNodes)))"
      by (blast intro: order_trans)
    then have "raw (consumeSymbol s input startPos seps remainingNodes) \<noteq> []"
      by (auto simp: one_enat_def)
    with l k show "raw (consumeSymbol s input startPos seps remainingNodes) \<noteq> []
                \<and> min_rep s \<le> enat (length (raw (consumeSymbol s input startPos seps remainingNodes)))
                \<and> (\<forall>c \<in> set (raw (consumeSymbol s input startPos seps remainingNodes)). matchesNode s c)"
      by blast
  qed
  from b z c show "1 \<le> min_rep s \<and> min_rep s \<le> max_rep s \<and> (max_rep s = min_rep s \<or> max_rep s = \<infinity>)
        \<and> min_rep s \<noteq> 0
        \<and> (\<forall>input startPos seps remainingNodes.
              satisfied (consumeSymbol s input startPos seps remainingNodes) \<longrightarrow>
                raw (consumeSymbol s input startPos seps remainingNodes) \<noteq> []
                \<and> min_rep s \<le> enat (length (raw (consumeSymbol s input startPos seps remainingNodes)))
                \<and> (\<forall>c \<in> set (raw (consumeSymbol s input startPos seps remainingNodes)). matchesNode s c))"
    by simp
qed

text \<open>The symbol \<open>A{2}\<close> inside the group of the pattern \<open>[[0|A{2}]]\<close>, on the input \<open>ab1\<close>.\<close>

theorem compiled_symbol_bounds_witness:
  "parseMask (asc ''[[0|A{2}]]'') = Inr \<lparr>fragments = [[Group [[Symbol \<lparr>kind = Kind0, val = None, min_rep = 1, max_rep = 1\<rparr>], [Symbol \<lparr>kind = KindA, val = None, min_rep = 2, max_rep = 2\<rparr>]]]], separators = []\<rparr>
   \<and> \<lparr>kind = KindA, val = None, min_rep = 2, max_rep = 2\<rparr> \<in> set (symbolsOf (Group [[Symbol \<lparr>kind = Kind0, val = None, min_rep = 1, max_rep = 1\<rparr>], [Symbol \<lparr>kind = KindA, val = None, min_rep = 2, max_rep = 2\<rparr>]]))
   \<and> 1 \<le> min_rep \<lparr>kind = KindA, val = None, min_rep = 2, max_rep = 2\<rparr> \<and> min_rep \<lparr>kind = KindA, val = None, min_rep = 2, max_rep = 2\<rparr> \<le> max_rep \<lparr>kind = KindA, val = None, min_rep = 2, max_rep = 2\<rparr>
   \<and> satisfied (consumeSymbol \<lparr>kind = KindA, val = None, min_rep = 2, max_rep = 2\<rparr> (asc ''ab1'') 0 [] [])
   \<and> raw (consumeSymbol \<lparr>kind = KindA, val = None, min_rep = 2, max_rep = 2\<rparr> (asc ''ab1'') 0 [] []) \<noteq> []"
proof -
  have a: "parseMask (asc ''[[0|A{2}]]'') = Inr \<lparr>fragments = [[Group [[Symbol \<lparr>kind = Kind0, val = None, min_rep = 1, max_rep = 1\<rparr>], [Symbol \<lparr>kind = KindA, val = None, min_rep = 2, max_rep = 2\<rparr>]]]], separators = []\<rparr>"
    by code_simp
  have b: "\<lparr>kind = KindA, val = None, min_rep = 2, max_rep = 2\<rparr> \<in> set (symbolsOf (Group [[Symbol \<lparr>kind = Kind0, val = None, min_rep = 1, max_rep = 1\<rparr>], [Symbol \<lparr>kind = KindA, val = None, min_rep = 2, max_rep = 2\<rparr>]]))"
    by simp
  have c: "satisfied (consumeSymbol \<lparr>kind = KindA, val = None, min_rep = 2, max_rep = 2\<rparr> (asc ''ab1'') 0 [] [])"
    by code_simp
  note t = compiled_symbol_bounds [of "asc ''[[0|A{2}]]''" "\<lparr>fragments = [[Group [[Symbol \<lparr>kind = Kind0, val = None, min_rep = 1, max_rep = 1\<rparr>], [Symbol \<lparr>kind = KindA, val = None, min_rep = 2, max_rep = 2\<rparr>]]]], separators = []\<rparr>"]
  from t a have "\<forall>nodes \<in> set (fragments \<lparr>fragments = [[Group [[Symbol \<lparr>kind = Kind0, val = None, min_rep = 1, max_rep = 1\<rparr>], [Symbol \<lparr>kind = KindA, val = None, min_rep = 2, max_rep = 2\<rparr>]]]], separators = []\<rparr>). \<forall>node \<in> set nodes. \<forall>s \<in> set (symbolsOf node).
        1 \<le> min_rep s \<and> min_rep s \<le> max_rep s
        \<and> (\<forall>input startPos seps remainingNodes.
              satisfied (consumeSymbol s input startPos seps remainingNodes) \<longrightarrow>
                raw (consumeSymbol s input startPos seps remainingNodes) \<noteq> [])"
    by blast
  then have "\<forall>s \<in> set (symbolsOf (Group [[Symbol \<lparr>kind = Kind0, val = None, min_rep = 1, max_rep = 1\<rparr>], [Symbol \<lparr>kind = KindA, val = None, min_rep = 2, max_rep = 2\<rparr>]])).
        1 \<le> min_rep s \<and> min_rep s \<le> max_rep s
        \<and> (\<forall>input startPos seps remainingNodes.
              satisfied (consumeSymbol s input startPos seps remainingNodes) \<longrightarrow>
                raw (consumeSymbol s input startPos seps remainingNodes) \<noteq> [])"
    by simp
  with b have d: "1 \<le> min_rep \<lparr>kind = KindA, val = None, min_rep = 2, max_rep = 2\<rparr> \<and> min_rep \<lparr>kind = KindA, val = None, min_rep = 2, max_rep = 2\<rparr> \<le> max_rep \<lparr>kind = KindA, val = None, min_rep = 2, max_rep = 2\<rparr>
        \<and> (\<forall>input startPos seps remainingNodes.
              satisfied (consumeSymbol \<lparr>kind = KindA, val = None, min_rep = 2, max_rep = 2\<rparr> input startPos seps remainingNodes) \<longrightarrow>
                raw (consumeSymbol \<lparr>kind = KindA, val = None, min_rep = 2, max_rep = 2\<rparr> input startPos seps remainingNodes) \<noteq> [])"
    by blast
  with c have e: "raw (consumeSymbol \<lparr>kind = KindA, val = None, min_rep = 2, max_rep = 2\<rparr> (asc ''ab1'') 0 [] []) \<noteq> []"
    by blast
  from a b c d e show ?thesis by (simp only: simp_thms)
qed

section \<open>Worked examples of the specification\<close>

text \<open>
  C2. For the pattern \<open>0{4}:-:0{4}:-:0{4}:-:0{4}\<close> and the input \<open>4111 1111 1111 1111\<close> the
  formatter returns \<open>4111-1111-1111-1111\<close>. The pattern compiles to four fragments of one
  digit symbol with both bounds 4 and three separators \<open>-\<close>; no lookahead node starts with
  a space, and each fragment consumes four digits.
\<close>

theorem card_number_example:
  "create_format (asc ''0{4}:-:0{4}:-:0{4}:-:0{4}'') (Value (asc ''4111 1111 1111 1111''))
     = Inr (asc ''4111-1111-1111-1111'')"
  by code_simp

end
